theory Spec2Isabelle
  imports Main "HOL-Library.Word"
begin

section \<open>Errors raised by the JavaScript code\<close>

datatype js_error = TypeError | SyntaxError | InvalidCharacterError | NotAllowedError | RangeError

section \<open>Internet-explorer history (storage helpers)\<close>

text \<open>
  \<^verbatim>\<open>interface HistoryEntry { url; title; favicon?; timestamp; year? }\<close>.
  \<^verbatim>\<open>addToHistory\<close> receives an entry without its timestamp and stamps it with
  \<^verbatim>\<open>Date.now()\<close>, which is an input of the model.
\<close>

record NewEntry =
  url :: string
  title :: string
  favicon :: "string option"
  year :: "string option"

record HistoryEntry = NewEntry +
  timestamp :: int

text \<open>
  The value stored under the history key of local storage, as the array it parses to;
  \<open>None\<close> when the key is absent.
\<close>

type_synonym history_store = "HistoryEntry list option"

definition loadHistory :: "history_store \<Rightarrow> HistoryEntry list" where
  "loadHistory saved = (case saved of Some h \<Rightarrow> h | None \<Rightarrow> [])"

definition saveHistory :: "HistoryEntry list \<Rightarrow> history_store" where
  "saveHistory history = Some history"

definition stamp :: "int \<Rightarrow> NewEntry \<Rightarrow> HistoryEntry" where
  "stamp now entry =
     \<lparr>url = url entry, title = title entry, favicon = favicon entry, year = year entry,
      timestamp = now\<rparr>"

definition addToHistory :: "int \<Rightarrow> NewEntry \<Rightarrow> history_store \<Rightarrow> history_store" where
  "addToHistory now entry saved =
     (let history = loadHistory saved;
          newEntry = stamp now entry;
          history = newEntry # history
      in saveHistory (take 100 history))"

definition newestFirst :: "HistoryEntry list \<Rightarrow> bool" where
  "newestFirst h = sorted_wrt (\<lambda>a b. timestamp b \<le> timestamp a) h"

section \<open>Paint canvas: image data and the undo history\<close>

text \<open>
  An \<^verbatim>\<open>ImageData\<close>: its dimensions and its \<^verbatim>\<open>Uint8ClampedArray\<close> of RGBA bytes,
  four per pixel, rows first.
\<close>

record ImageData =
  width :: nat
  height :: nat
  data :: "8 word list"

definition wf_image :: "ImageData \<Rightarrow> bool" where
  "wf_image img = (length (data img) = 4 * (width img * height img))"

text \<open>Reading a typed array: \<open>None\<close> stands for \<^verbatim>\<open>undefined\<close> out of range.\<close>

definition at :: "'a list \<Rightarrow> nat \<Rightarrow> 'a option" where
  "at xs i = (if i < length xs then Some (xs ! i) else None)"

text \<open>
  \<^verbatim>\<open>hasCanvasChanged\<close>: different dimensions, or a difference at one of the sampled bytes
  \<open>0, 16, 32, ...\<close> (the red channel of every fourth pixel).
\<close>

function sampleDiffers :: "8 word list \<Rightarrow> 8 word list \<Rightarrow> nat \<Rightarrow> bool" where
  "sampleDiffers prevData newData i =
     (if i < length prevData
      then (if at prevData i \<noteq> at newData i then True
            else sampleDiffers prevData newData (i + 16))
      else False)"
  by pat_completeness auto
termination
  by (relation "measure (\<lambda>(p, n, i). length p - i)") auto

definition hasCanvasChanged :: "ImageData \<Rightarrow> ImageData \<Rightarrow> bool" where
  "hasCanvasChanged prevImageData newImageData =
     (if width prevImageData \<noteq> width newImageData
         \<or> height prevImageData \<noteq> height newImageData
      then True
      else sampleDiffers (data prevImageData) (data newImageData) 0)"

text \<open>
  The component's refs: the canvas pixel buffer (\<open>None\<close> while \<^verbatim>\<open>canvasRef\<close> or
  \<^verbatim>\<open>contextRef\<close> is null), \<^verbatim>\<open>historyRef\<close> and \<^verbatim>\<open>historyIndexRef\<close> (initially \<open>[]\<close>
  and \<open>-1\<close>).
\<close>

record PaintState =
  canvas :: "ImageData option"
  history :: "ImageData list"
  historyIndex :: int

definition initialPaint :: "ImageData option \<Rightarrow> PaintState" where
  "initialPaint cv = \<lparr>canvas = cv, history = [], historyIndex = - 1\<rparr>"

text \<open>
  \<^verbatim>\<open>context.putImageData(img, 0, 0)\<close>: the pixels of \<open>img\<close> replace those of the canvas
  where the two overlap; the canvas keeps its size.
\<close>

definition putImageData :: "ImageData \<Rightarrow> ImageData \<Rightarrow> ImageData" where
  "putImageData img cv =
     cv\<lparr>data :=
        map (\<lambda>i. let p = i div 4; x = p mod width cv; y = p div width cv
                 in if x < width img \<and> y < height img
                    then data img ! ((y * width img + x) * 4 + i mod 4)
                    else data cv ! i)
            [0..<length (data cv)]\<rparr>"

text \<open>\<^verbatim>\<open>xs.slice(0, e)\<close> and \<^verbatim>\<open>xs.slice(-n)\<close> of JavaScript arrays.\<close>

definition slice0 :: "'a list \<Rightarrow> int \<Rightarrow> 'a list" where
  "slice0 xs e = (if e < 0 then take (nat (int (length xs) + e)) xs else take (nat e) xs)"

definition sliceLast :: "'a list \<Rightarrow> nat \<Rightarrow> 'a list" where
  "sliceLast xs n = drop (length xs - n) xs"

definition atInt :: "'a list \<Rightarrow> int \<Rightarrow> 'a option" where
  "atInt xs i = (if 0 \<le> i then at xs (nat i) else None)"

text \<open>
  \<^verbatim>\<open>saveToHistory\<close>: nothing without a canvas; nothing when the sampled bytes equal
  those of the snapshot under the cursor; otherwise the redo states are dropped, the
  list is cut to its last 49 entries once it holds 50, and the new snapshot is pushed.
  Reading the width of an undefined previous snapshot would raise a TypeError.
\<close>

definition pushSnapshot :: "ImageData \<Rightarrow> PaintState \<Rightarrow> PaintState" where
  "pushSnapshot newImageData st =
     (let h1 = slice0 (history st) (historyIndex st + 1);
          h2 = (if length h1 \<ge> 50 then sliceLast h1 49 else h1);
          i2 = (if length h1 \<ge> 50 then min (historyIndex st) 48 else historyIndex st)
      in st\<lparr>history := h2 @ [newImageData], historyIndex := i2 + 1\<rparr>)"

definition saveToHistory :: "PaintState \<Rightarrow> js_error + PaintState" where
  "saveToHistory st =
     (case canvas st of
        None \<Rightarrow> Inr st
      | Some newImageData \<Rightarrow>
          if historyIndex st \<ge> 0
          then (case atInt (history st) (historyIndex st) of
                  None \<Rightarrow> Inl TypeError
                | Some prevImageData \<Rightarrow>
                    if \<not> hasCanvasChanged prevImageData newImageData then Inr st
                    else Inr (pushSnapshot newImageData st))
          else Inr (pushSnapshot newImageData st))"

definition restore :: "PaintState \<Rightarrow> PaintState" where
  "restore st =
     (case (canvas st, atInt (history st) (historyIndex st)) of
        (Some cv, Some imageData) \<Rightarrow> st\<lparr>canvas := Some (putImageData imageData cv)\<rparr>
      | _ \<Rightarrow> st)"

definition undo :: "PaintState \<Rightarrow> PaintState" where
  "undo st =
     (if historyIndex st > 0
      then restore (st\<lparr>historyIndex := historyIndex st - 1\<rparr>)
      else st)"

definition redo :: "PaintState \<Rightarrow> PaintState" where
  "redo st =
     (if historyIndex st < int (length (history st)) - 1
      then restore (st\<lparr>historyIndex := historyIndex st + 1\<rparr>)
      else st)"

text \<open>
  Drawing through the canvas API leaves new bytes \<open>px\<close> in the canvas buffer (\<open>paint\<close>; what
  the bytes are is the browser's rendering). \<open>paintAndSave\<close> is a change of the canvas that is
  followed by a call of \<^verbatim>\<open>saveToHistory\<close>: the way \<^verbatim>\<open>floodFill\<close>, \<^verbatim>\<open>renderText\<close>, \<^verbatim>\<open>handlePaste\<close>,
  \<^verbatim>\<open>clearSelection\<close>, \<^verbatim>\<open>clear\<close> and \<^verbatim>\<open>importImage\<close> end, and what \<^verbatim>\<open>draw\<close> does on every
  touchmove of a freehand tool (operation \<open>Draw\<close>). \<open>PaintOnly\<close> is a change of the canvas
  after which \<^verbatim>\<open>saveToHistory\<close> is not called, as on a mousemove or for the preview of a
  shape.
\<close>

definition paint :: "8 word list \<Rightarrow> PaintState \<Rightarrow> PaintState" where
  "paint px st = st\<lparr>canvas := map_option (\<lambda>cv. cv\<lparr>data := px\<rparr>) (canvas st)\<rparr>"

definition paintAndSave :: "8 word list \<Rightarrow> PaintState \<Rightarrow> js_error + PaintState" where
  "paintAndSave px st = saveToHistory (paint px st)"

datatype paint_op = Draw "8 word list" | PaintOnly "8 word list" | Undo | Redo

fun paintStep :: "paint_op \<Rightarrow> PaintState \<Rightarrow> js_error + PaintState" where
  "paintStep (Draw px) st = paintAndSave px st"
| "paintStep (PaintOnly px) st = Inr (paint px st)"
| "paintStep Undo st = Inr (undo st)"
| "paintStep Redo st = Inr (redo st)"

fun runPaint :: "paint_op list \<Rightarrow> PaintState \<Rightarrow> js_error + PaintState" where
  "runPaint [] st = Inr st"
| "runPaint (a # as) st =
     (case paintStep a st of Inl e \<Rightarrow> Inl e | Inr st' \<Rightarrow> runPaint as st')"

fun paintAndSaves :: "8 word list list \<Rightarrow> PaintState \<Rightarrow> js_error + PaintState" where
  "paintAndSaves [] st = Inr st"
| "paintAndSaves (px # pxs) st =
     (case paintAndSave px st of Inl e \<Rightarrow> Inl e | Inr st' \<Rightarrow> paintAndSaves pxs st')"

text \<open>
  The pointer handlers \<^verbatim>\<open>startDrawing\<close>, \<^verbatim>\<open>draw\<close> and \<^verbatim>\<open>stopDrawing\<close>, for the drawing tools
  and with no selection active (\<^verbatim>\<open>selection\<close> is null and \<^verbatim>\<open>isDraggingSelection\<close> false; the
  tools bucket, text and rect-select take branches of their own, which are not part of
  this model). The event is a mouse event or a touch event (\<^verbatim>\<open>"touches" in event\<close>); the
  tool is one of the shape tools line, rectangle and oval, or a freehand tool (pencil,
  brush, spray, eraser: \<open>Freehand\<close>). Beside the canvas and the history the handlers use
  the refs \<^verbatim>\<open>isDrawing\<close>, \<^verbatim>\<open>startPointRef\<close> (here: whether it holds a point) and
  \<^verbatim>\<open>lastImageRef\<close>.
\<close>

datatype pointer = Mouse | Touch

datatype tool = Line | Rectangle | Oval | Freehand

definition shapeTool :: "tool \<Rightarrow> bool" where
  "shapeTool selectedTool = (selectedTool = Line \<or> selectedTool = Rectangle \<or> selectedTool = Oval)"

record Drawing =
  paintState :: PaintState
  isDrawing :: bool
  startPointRef :: bool
  lastImageRef :: "ImageData option"

definition idle :: "PaintState \<Rightarrow> Drawing" where
  "idle st = \<lparr>paintState = st, isDrawing = False, startPointRef = False, lastImageRef = None\<rparr>"

text \<open>
  \<^verbatim>\<open>startDrawing\<close>: a shape tool stores the canvas in \<^verbatim>\<open>lastImageRef\<close> and the point in
  \<^verbatim>\<open>startPointRef\<close>; a freehand tool begins a path, which changes no pixel; both set
  \<^verbatim>\<open>isDrawing\<close>.
\<close>

definition startDrawing :: "pointer \<Rightarrow> tool \<Rightarrow> Drawing \<Rightarrow> Drawing" where
  "startDrawing event selectedTool d =
     (case canvas (paintState d) of
        None \<Rightarrow> d
      | Some img \<Rightarrow>
          (if shapeTool selectedTool
           then d\<lparr>lastImageRef := Some img, startPointRef := True, isDrawing := True\<rparr>
           else d\<lparr>isDrawing := True\<rparr>))"

text \<open>
  \<^verbatim>\<open>draw\<close>: nothing unless \<^verbatim>\<open>isDrawing\<close> is set. A shape tool puts \<^verbatim>\<open>lastImageRef\<close> back and
  draws the preview of the shape; a freehand tool extends the line, and for a touch event
  calls \<^verbatim>\<open>saveToHistory\<close> at once ("save history more frequently to ensure smoother
  undo/redo"). \<open>px\<close> are the bytes on the canvas after the API calls.
\<close>

definition draw :: "pointer \<Rightarrow> tool \<Rightarrow> 8 word list \<Rightarrow> Drawing \<Rightarrow> js_error + Drawing" where
  "draw event selectedTool px d =
     (if canvas (paintState d) = None then Inr d
      else if \<not> isDrawing d then Inr d
      else if shapeTool selectedTool \<and> startPointRef d \<and> lastImageRef d \<noteq> None
      then Inr (d\<lparr>paintState := paint px (paintState d)\<rparr>)
      else if \<not> shapeTool selectedTool
      then (if event = Touch \<and> \<not> shapeTool selectedTool
            then (case saveToHistory (paint px (paintState d)) of
                    Inl e \<Rightarrow> Inl e
                  | Inr st \<Rightarrow> Inr (d\<lparr>paintState := st\<rparr>))
            else Inr (d\<lparr>paintState := paint px (paintState d)\<rparr>))
      else Inr d)"

text \<open>
  \<^verbatim>\<open>stopDrawing\<close>: a touch event saves when \<^verbatim>\<open>isDrawing\<close> is set; then \<^verbatim>\<open>isDrawing\<close> and
  \<^verbatim>\<open>startPointRef\<close> are reset; then come the two saves "for all drawing operations when
  they complete" and "for shape tools when they complete", whose conditions read the
  refs that have just been reset.
\<close>

definition stopDrawing :: "pointer \<Rightarrow> tool \<Rightarrow> Drawing \<Rightarrow> js_error + Drawing" where
  "stopDrawing event selectedTool d =
     (if canvas (paintState d) = None then Inr d
      else case (if event = Touch \<and> isDrawing d then saveToHistory (paintState d)
                 else Inr (paintState d)) of
        Inl e \<Rightarrow> Inl e
      | Inr st1 \<Rightarrow>
          let d1 = d\<lparr>paintState := st1, isDrawing := False, startPointRef := False\<rparr>
          in case (if isDrawing d1 then saveToHistory (paintState d1)
                   else Inr (paintState d1)) of
               Inl e \<Rightarrow> Inl e
             | Inr st2 \<Rightarrow>
                 (case (if shapeTool selectedTool \<and> startPointRef d1 \<and> lastImageRef d1 \<noteq> None
                        then saveToHistory st2 else Inr st2) of
                    Inl e \<Rightarrow> Inl e
                  | Inr st3 \<Rightarrow> Inr (d1\<lparr>paintState := st3\<rparr>)))"

text \<open>
  A completed stroke: the pointer goes down, moves (each move leaving the bytes \<open>px\<close> on
  the canvas) and goes up. \<open>strokes\<close> is a sequence of strokes, each with its kind of
  event and its tool.
\<close>

fun draws :: "pointer \<Rightarrow> tool \<Rightarrow> 8 word list list \<Rightarrow> Drawing \<Rightarrow> js_error + Drawing" where
  "draws event selectedTool [] d = Inr d"
| "draws event selectedTool (px # pxs) d =
     (case draw event selectedTool px d of
        Inl e \<Rightarrow> Inl e
      | Inr d' \<Rightarrow> draws event selectedTool pxs d')"

definition stroke :: "pointer \<Rightarrow> tool \<Rightarrow> 8 word list list \<Rightarrow> Drawing \<Rightarrow> js_error + Drawing" where
  "stroke event selectedTool pxs d =
     (case draws event selectedTool pxs (startDrawing event selectedTool d) of
        Inl e \<Rightarrow> Inl e
      | Inr d' \<Rightarrow> stopDrawing event selectedTool d')"

fun strokes :: "(pointer \<times> tool \<times> 8 word list list) list \<Rightarrow> Drawing \<Rightarrow> js_error + Drawing" where
  "strokes [] d = Inr d"
| "strokes ((event, selectedTool, pxs) # ss) d =
     (case stroke event selectedTool pxs d of Inl e \<Rightarrow> Inl e | Inr d' \<Rightarrow> strokes ss d')"

text \<open>The canvas after the first \<open>j\<close> of the changes \<open>pxs\<close>, started from \<open>c0\<close>.\<close>

definition canvasAfter :: "ImageData \<Rightarrow> 8 word list list \<Rightarrow> nat \<Rightarrow> ImageData" where
  "canvasAfter c0 pxs j = (if j = 0 then c0 else c0\<lparr>data := pxs ! (j - 1)\<rparr>)"

text \<open>
  Every one of the changes differs from the canvas before it at a sampled byte, so that
  \<^verbatim>\<open>saveToHistory\<close> records it.
\<close>

definition allRecorded :: "ImageData \<Rightarrow> 8 word list list \<Rightarrow> bool" where
  "allRecorded c0 pxs =
     list_all (\<lambda>j. hasCanvasChanged (canvasAfter c0 pxs j) (canvasAfter c0 pxs (Suc j)))
       [0..<length pxs]"

definition historyInv :: "PaintState \<Rightarrow> bool" where
  "historyInv st =
     (length (history st) \<le> 50 \<and> 0 \<le> historyIndex st
      \<and> historyIndex st < int (length (history st)))"

section \<open>Paint canvas: the bucket fill\<close>

text \<open>
  The scanline stack of \<^verbatim>\<open>floodFill\<close>. A \<^verbatim>\<open>ScanLine\<close> is \<^verbatim>\<open>{y, leftX, rightX, direction}\<close>
  (its \<^verbatim>\<open>y\<close> is the field \<open>lineY\<close>); coordinates are JavaScript numbers holding integers.
  The stack is a list whose head is the entry that \<^verbatim>\<open>pop\<close> returns. A colour is the four
  bytes read at a position, each \<open>None\<close> where the read is out of range; a typed array
  ignores a write out of range.
\<close>

record ScanLine =
  lineY :: int
  leftX :: int
  rightX :: int
  direction :: int

type_synonym rgba = "8 word option \<times> 8 word option \<times> 8 word option \<times> 8 word option"

definition rgbaAt :: "8 word list \<Rightarrow> int \<Rightarrow> rgba" where
  "rgbaAt a pos = (atInt a pos, atInt a (pos + 1), atInt a (pos + 2), atInt a (pos + 3))"

definition matchesStart :: "8 word list \<Rightarrow> rgba \<Rightarrow> int \<Rightarrow> bool" where
  "matchesStart pixels start pos =
     (case start of (startR, startG, startB, startA) \<Rightarrow>
        atInt pixels pos = startR \<and> atInt pixels (pos + 1) = startG
        \<and> atInt pixels (pos + 2) = startB \<and> atInt pixels (pos + 3) = startA)"

definition store :: "8 word list \<Rightarrow> int \<Rightarrow> 8 word option \<Rightarrow> 8 word list" where
  "store a i v =
     (if 0 \<le> i \<and> i < int (length a)
      then a[nat i := (case v of Some b \<Rightarrow> b | None \<Rightarrow> 0)]
      else a)"

definition setPixel :: "8 word list \<Rightarrow> int \<Rightarrow> 8 word list \<times> nat \<Rightarrow> 8 word list \<times> nat" where
  "setPixel patternData pos s =
     (case s of (pixels, filledPixels) \<Rightarrow>
        (store (store (store (store pixels pos (atInt patternData pos))
                             (pos + 1) (atInt patternData (pos + 1)))
                      (pos + 2) (atInt patternData (pos + 2)))
               (pos + 3) (atInt patternData (pos + 3)),
         filledPixels + 1))"

function extendLeft :: "int \<Rightarrow> 8 word list \<Rightarrow> rgba \<Rightarrow> int \<Rightarrow> int \<Rightarrow> int" where
  "extendLeft w pixels start y x1 =
     (if x1 > 0 \<and> matchesStart pixels start ((y * w + (x1 - 1)) * 4)
      then extendLeft w pixels start y (x1 - 1)
      else x1)"
  by pat_completeness auto
termination
  by (relation "measure (\<lambda>(w, pixels, start, y, x1). nat x1)") auto

declare extendLeft.simps [simp del]

function extendRight :: "int \<Rightarrow> 8 word list \<Rightarrow> rgba \<Rightarrow> int \<Rightarrow> int \<Rightarrow> int" where
  "extendRight w pixels start y x2 =
     (if x2 < w - 1 \<and> matchesStart pixels start ((y * w + (x2 + 1)) * 4)
      then extendRight w pixels start y (x2 + 1)
      else x2)"
  by pat_completeness auto
termination
  by (relation "measure (\<lambda>(w, pixels, start, y, x2). nat (w - 1 - x2))") auto

declare extendRight.simps [simp del]

function fillSpan :: "int \<Rightarrow> 8 word list \<Rightarrow> int \<Rightarrow> int \<Rightarrow> int \<Rightarrow> 8 word list \<times> nat
    \<Rightarrow> 8 word list \<times> nat" where
  "fillSpan w patternData y x x2 s =
     (if x \<le> x2 then fillSpan w patternData y (x + 1) x2 (setPixel patternData ((y * w + x) * 4) s)
      else s)"
  by pat_completeness auto
termination
  by (relation "measure (\<lambda>(w, patternData, y, x, x2, s). nat (x2 + 1 - x))") auto

declare fillSpan.simps [simp del]

definition setTopRightX :: "int \<Rightarrow> ScanLine list \<Rightarrow> ScanLine list" where
  "setTopRightX r scanlines =
     (case scanlines of [] \<Rightarrow> [] | t # rest \<Rightarrow> t\<lparr>rightX := r\<rparr> # rest)"

function scanRow :: "int \<Rightarrow> 8 word list \<Rightarrow> rgba \<Rightarrow> int \<Rightarrow> int \<Rightarrow> int \<Rightarrow> int
    \<Rightarrow> ScanLine list \<times> bool \<Rightarrow> ScanLine list \<times> bool" where
  "scanRow w pixels start newY dir x x2 s =
     (if x \<le> x2
      then (case s of (scanlines, inRange) \<Rightarrow>
              let matchesNow = matchesStart pixels start ((newY * w + x) * 4)
              in scanRow w pixels start newY dir (x + 1) x2
                   (if \<not> inRange \<and> matchesNow
                    then (\<lparr>lineY = newY, leftX = x, rightX = x, direction = dir\<rparr> # scanlines,
                          True)
                    else if inRange \<and> \<not> matchesNow
                    then (setTopRightX (x - 1) scanlines, False)
                    else (scanlines, inRange)))
      else s)"
  by pat_completeness auto
termination
  by (relation "measure (\<lambda>(w, pixels, start, newY, dir, x, x2, s). nat (x2 + 1 - x))") auto

declare scanRow.simps [simp del]

definition findSpans :: "int \<Rightarrow> 8 word list \<Rightarrow> rgba \<Rightarrow> int \<Rightarrow> int \<Rightarrow> int \<Rightarrow> int
    \<Rightarrow> ScanLine list \<Rightarrow> ScanLine list" where
  "findSpans w pixels start newY dir x1 x2 scanlines =
     (case scanRow w pixels start newY dir x1 x2 (scanlines, False) of
        (scanlines', inRange) \<Rightarrow>
          if inRange then setTopRightX x2 scanlines' else scanlines')"

function fillLoop :: "int \<Rightarrow> int \<Rightarrow> 8 word list \<Rightarrow> rgba \<Rightarrow> nat
    \<Rightarrow> 8 word list \<times> nat \<times> ScanLine list \<Rightarrow> 8 word list" where
  "fillLoop w h patternData start maxPixels (pixels, filledPixels, []) = pixels"
| "fillLoop w h patternData start maxPixels (pixels, filledPixels, sl # rest) =
     (if \<not> filledPixels < maxPixels then pixels
      else if lineY sl + direction sl < 0 \<or> lineY sl + direction sl \<ge> h
      then fillLoop w h patternData start maxPixels (pixels, filledPixels, rest)
      else
        fillLoop w h patternData start maxPixels
          (fst (fillSpan w patternData (lineY sl)
                  (extendLeft w pixels start (lineY sl) (leftX sl))
                  (extendRight w pixels start (lineY sl) (rightX sl)) (pixels, filledPixels)),
           snd (fillSpan w patternData (lineY sl)
                  (extendLeft w pixels start (lineY sl) (leftX sl))
                  (extendRight w pixels start (lineY sl) (rightX sl)) (pixels, filledPixels)),
           findSpans w
             (fst (fillSpan w patternData (lineY sl)
                  (extendLeft w pixels start (lineY sl) (leftX sl))
                  (extendRight w pixels start (lineY sl) (rightX sl)) (pixels, filledPixels)))
             start (lineY sl + direction sl) (direction sl)
             (extendLeft w pixels start (lineY sl) (leftX sl))
             (extendRight w pixels start (lineY sl) (rightX sl)) rest))"
  by pat_completeness auto
termination
proof (relation "measures [\<lambda>(w, h, p, s, m, (px, f, sc)). m - f,
                           \<lambda>(w, h, p, s, m, (px, f, sc)). length sc]", goal_cases)
  case 1
  then show ?case by simp
next
  case (2 w h patternData start maxPixels pixels filledPixels sl rest)
  then show ?case by simp
next
  case (3 w h patternData start maxPixels pixels filledPixels sl rest)
  have cnt: "snd (fillSpan w' p y x x2 (a, n)) = n + nat (x2 + 1 - x)" for w' p y x x2 a n
  proof (induction w' p y x x2 "(a, n)" arbitrary: a n rule: fillSpan.induct)
    case (1 w' p y x x2)
    show ?case
    proof (cases "x \<le> x2")
      case True
      then show ?thesis
        using 1[OF True, of "fst (setPixel p ((y * w' + x) * 4) (a, n))" "Suc n"]
        by (subst fillSpan.simps) (simp add: setPixel_def)
    next
      case False
      then show ?thesis by (subst fillSpan.simps) simp
    qed
  qed
  let ?x1 = "extendLeft w pixels start (lineY sl) (leftX sl)"
  let ?x2 = "extendRight w pixels start (lineY sl) (rightX sl)"
  show ?case
  proof (cases "?x1 \<le> ?x2")
    case True
    then have "0 < nat (?x2 + 1 - ?x1)" by simp
    then show ?thesis using 3 by (simp add: cnt) arith
  next
    case False
    then have "scanRow w px start (lineY sl + direction sl) (direction sl) ?x1 ?x2 (rest, False)
        = (rest, False)" for px
      by (subst scanRow.simps) simp
    then show ?thesis using 3 False by (simp add: cnt findSpans_def)
  qed
qed

declare fillLoop.simps [simp del]

text \<open>
  \<^verbatim>\<open>Math.floor(canvas.width * canvas.height * 0.8)\<close>. The double nearest to 0.8 exceeds it
  by a factor of \<open>1 + 2\<^sup>-\<^sup>5\<^sup>4\<close>, so for every canvas a browser can allocate the rounded
  product has the floor of the exact four fifths of the pixel count.
\<close>

definition maxPixelsOf :: "int \<Rightarrow> int \<Rightarrow> nat" where
  "maxPixelsOf w h = nat ((w * h * 4) div 5)"

text \<open>
  \<^verbatim>\<open>floodFill(startX, startY)\<close> on the canvas's image data; \<open>patternData\<close> holds the bytes of
  the temporary canvas filled with the pattern, \<open>None\<close> when there is no pattern. The result
  is the image data that is put back on the canvas.
\<close>

definition floodFill :: "ImageData \<Rightarrow> 8 word list option \<Rightarrow> int \<Rightarrow> int \<Rightarrow> ImageData" where
  "floodFill imageData patternData startX startY =
     (case patternData of
        None \<Rightarrow> imageData
      | Some pat \<Rightarrow>
          let w = int (width imageData);
              h = int (height imageData);
              pixels = data imageData;
              startPos = (startY * w + startX) * 4
          in if rgbaAt pixels startPos = rgbaAt pat startPos then imageData
             else imageData\<lparr>data :=
                    fillLoop w h pat (rgbaAt pixels startPos) (maxPixelsOf w h)
                      (pixels, 0,
                       [\<lparr>lineY = startY, leftX = startX, rightX = startX, direction = - 1\<rparr>,
                        \<lparr>lineY = startY, leftX = startX, rightX = startX, direction = 1\<rparr>])\<rparr>)"

section \<open>Audio bytes and base64\<close>

text \<open>
  A JavaScript string is its list of UTF-16 code units, a \<^verbatim>\<open>Uint8Array\<close> a list of bytes.
  \<^verbatim>\<open>String.fromCharCode(...bytes)\<close> spreads the array: every byte is passed as an argument of
  its own and becomes one code unit. An engine accepts only so many arguments in one call
  and throws a RangeError beyond that; the number depends on the engine and on the stack
  it has left, so it is the parameter \<open>maxArgs\<close> here. \<^verbatim>\<open>btoa\<close> and \<^verbatim>\<open>atob\<close>
  are the browser's: \<^verbatim>\<open>btoa\<close> refuses a code unit above 255 and otherwise writes the bytes in
  base64 with padding \<^verbatim>\<open>=\<close> (code unit 61); \<^verbatim>\<open>atob\<close> drops ASCII whitespace, drops one or two
  trailing \<^verbatim>\<open>=\<close> when the length is a multiple of four, refuses a length of 1 modulo 4 and
  any character outside the alphabet, and turns each group of sextets into bytes.
\<close>

type_synonym js_string = "nat list"

definition fromCharCode :: "nat \<Rightarrow> 8 word list \<Rightarrow> js_error + js_string" where
  "fromCharCode maxArgs codes =
     (if length codes > maxArgs then Inl RangeError else Inr (map unat codes))"

definition b64char :: "nat \<Rightarrow> nat" where
  "b64char v = (if v < 26 then 65 + v else if v < 52 then 97 + (v - 26)
                else if v < 62 then 48 + (v - 52) else if v = 62 then 43 else 47)"

definition b64value :: "nat \<Rightarrow> nat option" where
  "b64value c = (if 65 \<le> c \<and> c \<le> 90 then Some (c - 65)
                 else if 97 \<le> c \<and> c \<le> 122 then Some (c - 97 + 26)
                 else if 48 \<le> c \<and> c \<le> 57 then Some (c - 48 + 52)
                 else if c = 43 then Some 62 else if c = 47 then Some 63 else None)"

fun sextets :: "nat list \<Rightarrow> nat list" where
  "sextets (a # b # c # r) =
     [a div 4, (a mod 4) * 16 + b div 16, (b mod 16) * 4 + c div 64, c mod 64] @ sextets r"
| "sextets [a, b] = [a div 4, (a mod 4) * 16 + b div 16, (b mod 16) * 4]"
| "sextets [a] = [a div 4, (a mod 4) * 16]"
| "sextets [] = []"

definition btoa :: "js_string \<Rightarrow> js_error + js_string" where
  "btoa s =
     (if list_ex (\<lambda>c. c > 255) s then Inl InvalidCharacterError
      else Inr (map b64char (sextets s) @ replicate ((3 - length s mod 3) mod 3) 61))"

definition asciiWhitespace :: "nat \<Rightarrow> bool" where
  "asciiWhitespace c = (c = 9 \<or> c = 10 \<or> c = 12 \<or> c = 13 \<or> c = 32)"

definition stripPadding :: "nat list \<Rightarrow> nat list" where
  "stripPadding d =
     (if length d mod 4 = 0 \<and> d \<noteq> [] \<and> last d = 61
      then (if butlast d \<noteq> [] \<and> last (butlast d) = 61 then butlast (butlast d) else butlast d)
      else d)"

fun octets :: "nat list \<Rightarrow> nat list" where
  "octets (s1 # s2 # s3 # s4 # r) =
     [s1 * 4 + s2 div 16, (s2 mod 16) * 16 + s3 div 4, (s3 mod 4) * 64 + s4] @ octets r"
| "octets [s1, s2, s3] = [s1 * 4 + s2 div 16, (s2 mod 16) * 16 + s3 div 4]"
| "octets [s1, s2] = [s1 * 4 + s2 div 16]"
| "octets _ = []"

definition atob :: "js_string \<Rightarrow> js_error + js_string" where
  "atob input =
     (let d = stripPadding (filter (\<lambda>c. \<not> asciiWhitespace c) input)
      in if length d mod 4 = 1 \<or> list_ex (\<lambda>c. b64value c = None) d
         then Inl InvalidCharacterError
         else Inr (octets (map (\<lambda>c. the (b64value c)) d)))"

text \<open>
  \<^verbatim>\<open>base64FromBlob\<close> (and the same expression in \<^verbatim>\<open>handleRecordingStop\<close>), and the decoding
  done by \<^verbatim>\<open>playSound\<close>, \<^verbatim>\<open>updateWaveform\<close>, \<^verbatim>\<open>createWaveform\<close> and \<^verbatim>\<open>createAudioFromBase64\<close>:
  \<^verbatim>\<open>atob\<close>, then \<^verbatim>\<open>bytes[i] = binary.charCodeAt(i)\<close> for every index into a zeroed
  \<^verbatim>\<open>Uint8Array\<close> of the same length (a store keeps the low eight bits).
\<close>

definition base64FromBlob :: "nat \<Rightarrow> 8 word list \<Rightarrow> js_error + js_string" where
  "base64FromBlob maxArgs buffer =
     (case fromCharCode maxArgs buffer of Inl e \<Rightarrow> Inl e | Inr s \<Rightarrow> btoa s)"

definition charCodesInto :: "js_string \<Rightarrow> 8 word list" where
  "charCodesInto binary =
     fold (\<lambda>i bytes. bytes[i := of_nat (binary ! i)]) [0..<length binary]
       (replicate (length binary) 0)"

definition bytesFromBase64 :: "js_string \<Rightarrow> js_error + 8 word list" where
  "bytesFromBase64 base64Data =
     (case atob base64Data of Inl e \<Rightarrow> Inl e | Inr binary \<Rightarrow> Inr (charCodesInto binary))"

section \<open>Soundboard\<close>

text \<open>
  JSON values. A JavaScript value that is a JSON value or \<^verbatim>\<open>undefined\<close> is a \<open>json option\<close>,
  \<open>None\<close> being \<^verbatim>\<open>undefined\<close>. A JSON text is represented by the value it denotes; the
  payload of a number is never inspected except for being zero. \<open>truthy\<close> is JavaScript's
  truthiness, \<open>getp v k\<close> the property read \<^verbatim>\<open>v.k\<close> for the keys the code reads (\<^verbatim>\<open>boards\<close>,
  \<^verbatim>\<open>slots\<close>, \<^verbatim>\<open>audioData\<close>, \<^verbatim>\<open>emoji\<close>, \<^verbatim>\<open>title\<close>): a TypeError on \<^verbatim>\<open>null\<close>, \<^verbatim>\<open>undefined\<close> on
  a number, string, boolean or array. \<^verbatim>\<open>JSON.stringify\<close> leaves out every property whose
  value is \<^verbatim>\<open>undefined\<close>: \<open>stringifyProps\<close>.
\<close>

datatype json =
    JNull | JBool bool | JNum int | JStr string | JArr "json list"
  | JObj "(string \<times> json) list"

type_synonym jsval = "json option"

definition truthy :: "jsval \<Rightarrow> bool" where
  "truthy v =
     (case v of
        None \<Rightarrow> False
      | Some JNull \<Rightarrow> False
      | Some (JBool b) \<Rightarrow> b
      | Some (JNum n) \<Rightarrow> n \<noteq> 0
      | Some (JStr s) \<Rightarrow> s \<noteq> []
      | Some _ \<Rightarrow> True)"

definition getp :: "json \<Rightarrow> string \<Rightarrow> js_error + jsval" where
  "getp v k =
     (case v of
        JNull \<Rightarrow> Inl TypeError
      | JObj ps \<Rightarrow> Inr (map_of ps k)
      | _ \<Rightarrow> Inr None)"

definition stringifyProps :: "(string \<times> jsval) list \<Rightarrow> (string \<times> json) list" where
  "stringifyProps ps = List.map_filter (\<lambda>(k, v). map_option (Pair k) v) ps"

text \<open>
  The interfaces \<^verbatim>\<open>SoundSlot\<close>, \<^verbatim>\<open>Soundboard\<close> and \<^verbatim>\<open>PlaybackState\<close>. An imported board is not
  validated, so its \<^verbatim>\<open>name\<close> and the \<^verbatim>\<open>audioData\<close>, \<^verbatim>\<open>emoji\<close> and \<^verbatim>\<open>title\<close> of its slots are
  whatever the file held; \<open>extra\<close> are the further properties that the spread
  \<^verbatim>\<open>{...board}\<close> carries along. A \<^verbatim>\<open>WaveSurfer\<close> instance is a handle. The field \<open>id'\<close> is the
  board's \<^verbatim>\<open>id\<close>.

  The state of the component: the boards, the active board id, the playback states,
  \<^verbatim>\<open>activeSlotRef\<close>, the document stored under the local-storage key, the errors written
  with \<^verbatim>\<open>console.error\<close>, and the exceptions that escaped an event handler. The storage
  quota is not modelled.
\<close>

datatype WaveSurfer = WaveSurfer nat

record SoundSlot =
  audioData :: jsval
  waveform :: "WaveSurfer option"
  emoji :: jsval
  title :: jsval

record Soundboard =
  id' :: string
  name :: jsval
  slots :: "SoundSlot list"
  extra :: "(string \<times> json) list"

record PlaybackState =
  isRecording :: bool
  isPlaying :: bool

record App =
  boards :: "Soundboard list"
  activeBoardId :: string
  playbackStates :: "PlaybackState list"
  activeSlotRef :: "nat option"
  storage :: "json option"
  console :: "js_error list"
  uncaught :: "js_error list"

definition emptySlot :: SoundSlot where
  "emptySlot = \<lparr>audioData = Some JNull, waveform = None, emoji = None, title = None\<rparr>"

definition defaultBoard :: Soundboard where
  "defaultBoard =
     \<lparr>id' = ''default'', name = Some (JStr ''New Soundboard''), slots = replicate 9 emptySlot,
      extra = []\<rparr>"

definition initialApp :: App where
  "initialApp =
     \<lparr>boards = [defaultBoard], activeBoardId = ''default'',
      playbackStates = replicate 9 \<lparr>isRecording = False, isPlaying = False\<rparr>,
      activeSlotRef = None, storage = None, console = [], uncaught = []\<rparr>"

definition activeBoard :: "App \<Rightarrow> Soundboard" where
  "activeBoard st =
     (case find (\<lambda>b. id' b = activeBoardId st) (boards st) of
        Some b \<Rightarrow> b
      | None \<Rightarrow> (case boards st of b # _ \<Rightarrow> b | [] \<Rightarrow> defaultBoard))"

text \<open>
  What \<^verbatim>\<open>JSON.stringify\<close> writes for the object
  \<^verbatim>\<open>{...board, slots: board.slots.map(slot => ({audioData, emoji, title}))}\<close>.
\<close>

definition slotDoc :: "SoundSlot \<Rightarrow> json" where
  "slotDoc slot =
     JObj (stringifyProps
       [(''audioData'', audioData slot), (''emoji'', emoji slot), (''title'', title slot)])"

definition boardDoc :: "Soundboard \<Rightarrow> json" where
  "boardDoc board =
     JObj (stringifyProps [(''id'', Some (JStr (id' board))), (''name'', name board)]
           @ [(''slots'', JArr (map slotDoc (slots board)))] @ extra board)"

text \<open>
  \<^verbatim>\<open>saveBoards\<close>: the stripped boards go to local storage; in the state the slots of every
  board with the active id get \<^verbatim>\<open>activeBoard.slots[idx]?.waveform || slot.waveform\<close>.
\<close>

definition orElse :: "'a option \<Rightarrow> 'a option \<Rightarrow> 'a option" where
  "orElse a b = (case a of Some x \<Rightarrow> Some x | None \<Rightarrow> b)"

definition saveBoards :: "Soundboard list \<Rightarrow> App \<Rightarrow> App" where
  "saveBoards newBoards st =
     (let boardsForStorage = JArr (map boardDoc newBoards);
          boardsWithWaveforms =
            map (\<lambda>board.
                  if id' board = activeBoardId st
                  then board\<lparr>slots :=
                         map (\<lambda>(slot, idx).
                               slot\<lparr>waveform :=
                                 orElse (case at (slots (activeBoard st)) idx of
                                           Some s \<Rightarrow> waveform s | None \<Rightarrow> None)
                                        (waveform slot)\<rparr>)
                             (zip (slots board) [0..<length (slots board)])\<rparr>
                  else board)
              newBoards
      in st\<lparr>storage := Some boardsForStorage, boards := boardsWithWaveforms\<rparr>)"

text \<open>
  \<^verbatim>\<open>addNewBoard\<close>; its argument is the value of \<^verbatim>\<open>Date.now().toString()\<close>. Selecting a board
  in the list calls \<^verbatim>\<open>setActiveBoardId\<close>.
\<close>

definition addNewBoard :: "string \<Rightarrow> App \<Rightarrow> App" where
  "addNewBoard now st =
     (let newBoard = \<lparr>id' = now, name = Some (JStr ''New Soundboard''),
                      slots = replicate 9 emptySlot, extra = []\<rparr>
      in (saveBoards (boards st @ [newBoard]) st)\<lparr>activeBoardId := id' newBoard\<rparr>)"

definition setActiveBoardId :: "string \<Rightarrow> App \<Rightarrow> App" where
  "setActiveBoardId i st = st\<lparr>activeBoardId := i\<rparr>"

text \<open>
  \<^verbatim>\<open>deleteCurrentBoard\<close>: \<^verbatim>\<open>newBoards[0].id\<close> throws a TypeError when the filter left nothing,
  after \<^verbatim>\<open>saveBoards(newBoards)\<close> has taken effect.
\<close>

definition throw :: "js_error \<Rightarrow> App \<Rightarrow> App" where
  "throw e st = st\<lparr>uncaught := uncaught st @ [e]\<rparr>"

definition deleteCurrentBoard :: "App \<Rightarrow> App" where
  "deleteCurrentBoard st =
     (if length (boards st) \<le> 1 then st
      else let newBoards = filter (\<lambda>b. id' b \<noteq> activeBoardId st) (boards st);
               st' = saveBoards newBoards st
           in (case newBoards of
                 [] \<Rightarrow> throw TypeError st'
               | b # _ \<Rightarrow> st'\<lparr>activeBoardId := id' b\<rparr>))"

text \<open>\<^verbatim>\<open>exportBoard\<close>: the document written to the downloaded file.\<close>

definition exportBoard :: "App \<Rightarrow> json" where
  "exportBoard st = JObj [(''boards'', JArr (map boardDoc (boards st)))]"

text \<open>
  \<^verbatim>\<open>importBoard\<close>. The outcome of reading the file is no file, a text on which
  \<^verbatim>\<open>JSON.parse\<close> throws, or the parsed value. \<^verbatim>\<open>x.map(f)\<close> is a TypeError unless \<open>x\<close> is an
  array; the callback gets the index, which selects the id generated for that board
  (\<open>ids k\<close> is the value of \<^verbatim>\<open>Date.now().toString() + Math.random().toString(36).slice(2)\<close>
  at the \<open>k\<close>-th board). A board that is not an object has no \<^verbatim>\<open>slots\<close>, so its spread is
  never used. Every exception inside the \<^verbatim>\<open>try\<close> block is caught and logged.
\<close>

definition importSlot :: "json \<Rightarrow> js_error + SoundSlot" where
  "importSlot slot =
     (case getp slot ''audioData'' of
        Inl e \<Rightarrow> Inl e
      | Inr a \<Rightarrow>
          (case getp slot ''emoji'' of
             Inl e \<Rightarrow> Inl e
           | Inr em \<Rightarrow>
               (case getp slot ''title'' of
                  Inl e \<Rightarrow> Inl e
                | Inr t \<Rightarrow> Inr \<lparr>audioData = a, waveform = None, emoji = em, title = t\<rparr>)))"

fun mapE :: "('a \<Rightarrow> js_error + 'b) \<Rightarrow> 'a list \<Rightarrow> js_error + 'b list" where
  "mapE f [] = Inr []"
| "mapE f (x # xs) =
     (case f x of
        Inl e \<Rightarrow> Inl e
      | Inr y \<Rightarrow> (case mapE f xs of Inl e \<Rightarrow> Inl e | Inr ys \<Rightarrow> Inr (y # ys)))"

definition arrayMap :: "(nat \<Rightarrow> json \<Rightarrow> js_error + 'b) \<Rightarrow> json \<Rightarrow> js_error + 'b list" where
  "arrayMap f v =
     (case v of
        JArr xs \<Rightarrow> mapE (\<lambda>(k, x). f k x) (zip [0..<length xs] xs)
      | _ \<Rightarrow> Inl TypeError)"

definition ownProps :: "json \<Rightarrow> (string \<times> json) list" where
  "ownProps v = (case v of JObj ps \<Rightarrow> ps | _ \<Rightarrow> [])"

definition importOne :: "string \<Rightarrow> json \<Rightarrow> js_error + Soundboard" where
  "importOne newId board =
     (case getp board ''slots'' of
        Inl e \<Rightarrow> Inl e
      | Inr s \<Rightarrow>
          (case (case s of Some v \<Rightarrow> arrayMap (\<lambda>k. importSlot) v | None \<Rightarrow> Inl TypeError) of
             Inl e \<Rightarrow> Inl e
           | Inr sl \<Rightarrow>
               Inr \<lparr>id' = newId, name = map_of (ownProps board) ''name'', slots = sl,
                    extra = filter (\<lambda>(k, v). k \<notin> {''id'', ''name'', ''slots''})
                              (ownProps board)\<rparr>))"

definition importedBoards :: "json \<Rightarrow> js_error + json" where
  "importedBoards importedData =
     (case getp importedData ''boards'' of
        Inl e \<Rightarrow> Inl e
      | Inr b \<Rightarrow> Inr (if truthy b then the b else JArr [importedData]))"

definition newBoardsOf :: "(nat \<Rightarrow> string) \<Rightarrow> json \<Rightarrow> js_error + Soundboard list" where
  "newBoardsOf ids importedData =
     (case importedBoards importedData of
        Inl e \<Rightarrow> Inl e
      | Inr bs \<Rightarrow> arrayMap (\<lambda>k board. importOne (ids k) board) bs)"

definition logError :: "js_error \<Rightarrow> App \<Rightarrow> App" where
  "logError e st = st\<lparr>console := console st @ [e]\<rparr>"

datatype file_read = NoFile | Unparsable | Parsed json

definition importBoard :: "(nat \<Rightarrow> string) \<Rightarrow> file_read \<Rightarrow> App \<Rightarrow> App" where
  "importBoard ids fileRead st =
     (case fileRead of
        NoFile \<Rightarrow> st
      | Unparsable \<Rightarrow> logError SyntaxError st
      | Parsed importedData \<Rightarrow>
          (case newBoardsOf ids importedData of
             Inl e \<Rightarrow> logError e st
           | Inr newBoards \<Rightarrow>
               let st' = saveBoards (boards st @ newBoards) st
               in (case newBoards of
                     [] \<Rightarrow> logError TypeError st'
                   | b # _ \<Rightarrow> st'\<lparr>activeBoardId := id' b\<rparr>)))"

text \<open>The file makes the \<^verbatim>\<open>try\<close> block of \<^verbatim>\<open>importBoard\<close> throw.\<close>

definition importThrows :: "(nat \<Rightarrow> string) \<Rightarrow> file_read \<Rightarrow> bool" where
  "importThrows ids fileRead =
     (case fileRead of
        NoFile \<Rightarrow> False
      | Unparsable \<Rightarrow> True
      | Parsed importedData \<Rightarrow>
          (case newBoardsOf ids importedData of Inl e \<Rightarrow> True | Inr newBoards \<Rightarrow> newBoards = []))"

text \<open>
  \<^verbatim>\<open>handleSlotClick\<close> returns the handler it calls. \<^verbatim>\<open>startRecording\<close>: \<open>granted\<close> tells whether
  the browser handed over the microphone and a recorder; if not, the error is logged. It
  is called only after \<^verbatim>\<open>playbackStates[index]\<close> has been read, so the index is in range.
\<close>

datatype slot_action = StopSound nat | PlaySound json nat | StartRecording nat | StopRecording

definition handleSlotClick :: "nat \<Rightarrow> App \<Rightarrow> js_error + slot_action" where
  "handleSlotClick index st =
     (case at (slots (activeBoard st)) index of
        None \<Rightarrow> Inl TypeError
      | Some slot \<Rightarrow>
          if truthy (audioData slot)
          then (case at (playbackStates st) index of
                  None \<Rightarrow> Inl TypeError
                | Some p \<Rightarrow>
                    if isPlaying p then Inr (StopSound index)
                    else Inr (PlaySound (the (audioData slot)) index))
          else (case at (playbackStates st) index of
                  None \<Rightarrow> Inl TypeError
                | Some p \<Rightarrow>
                    if \<not> isRecording p then Inr (StartRecording index)
                    else Inr StopRecording))"

definition startRecording :: "bool \<Rightarrow> nat \<Rightarrow> App \<Rightarrow> App" where
  "startRecording granted slotIndex st =
     (if granted
      then st\<lparr>activeSlotRef := Some slotIndex,
              playbackStates :=
                (playbackStates st)[slotIndex := \<lparr>isRecording = True, isPlaying = False\<rparr>]\<rparr>
      else logError NotAllowedError st)"

section \<open>Auxiliary notions used in the statements\<close>

text \<open>
  The keys of a JSON object; the \<^verbatim>\<open>audioData\<close>, \<^verbatim>\<open>emoji\<close> and \<^verbatim>\<open>title\<close> of the slots of a board;
  a slot without its waveform; what of a board is persisted.
\<close>

definition keysOf :: "json \<Rightarrow> string list" where
  "keysOf v = (case v of JObj ps \<Rightarrow> map fst ps | _ \<Rightarrow> [])"

definition slotFields :: "Soundboard \<Rightarrow> (jsval \<times> jsval \<times> jsval) list" where
  "slotFields board = map (\<lambda>s. (audioData s, emoji s, title s)) (slots board)"

definition stripSlot :: "SoundSlot \<Rightarrow> SoundSlot" where
  "stripSlot slot = slot\<lparr>waveform := None\<rparr>"

definition persistent :: "Soundboard \<Rightarrow> string \<times> jsval \<times> (jsval \<times> jsval \<times> jsval) list \<times> (string \<times> json) list" where
  "persistent board = (id' board, name board, slotFields board, extra board)"

text \<open>
  Bookkeeping for the proofs: \<open>full\<close> is the list of all snapshots recorded up to the
  cursor, of which the history keeps the last 50; two images have the same size.
\<close>

definition tracks :: "PaintState \<Rightarrow> ImageData list \<Rightarrow> bool" where
  "tracks st full =
     (full \<noteq> [] \<and> canvas st = Some (last full) \<and> 0 \<le> historyIndex st
      \<and> nat (historyIndex st) < length (history st)
      \<and> take (Suc (nat (historyIndex st))) (history st) = sliceLast full 50)"

definition sameSize :: "ImageData \<Rightarrow> ImageData \<Rightarrow> bool" where
  "sameSize c img = (wf_image img \<and> width img = width c \<and> height img = height c)"

text \<open>
  Notions for the bucket fill: a pixel inside the canvas, the byte position of a pixel,
  and the 4-connected region of the pixels that have the start pixel's colour in the
  original image \<open>orig\<close>, grown from the start pixel.
\<close>

definition inb :: "int \<Rightarrow> int \<Rightarrow> int \<Rightarrow> int \<Rightarrow> bool" where
  "inb w h x y = (0 \<le> x \<and> x < w \<and> 0 \<le> y \<and> y < h)"

definition posOf :: "int \<Rightarrow> int \<Rightarrow> int \<Rightarrow> int" where
  "posOf w x y = (y * w + x) * 4"

inductive_set region4 :: "int \<Rightarrow> int \<Rightarrow> 8 word list \<Rightarrow> int \<Rightarrow> int \<Rightarrow> (int \<times> int) set"
  for w h orig sx sy where
    start: "inb w h sx sy \<Longrightarrow> (sx, sy) \<in> region4 w h orig sx sy"
  | step: "(x, y) \<in> region4 w h orig sx sy \<Longrightarrow> inb w h x' y' \<Longrightarrow>
           \<bar>x - x'\<bar> + \<bar>y - y'\<bar> = 1 \<Longrightarrow>
           rgbaAt orig (posOf w x' y') = rgbaAt orig (posOf w sx sy) \<Longrightarrow>
           (x', y') \<in> region4 w h orig sx sy"

definition fillCtx :: "int \<Rightarrow> int \<Rightarrow> 8 word list \<Rightarrow> 8 word list \<Rightarrow> bool" where
  "fillCtx w h orig pat = (int (length orig) = 4 * (w * h) \<and> length pat = length orig)"

definition okPixels :: "int \<Rightarrow> int \<Rightarrow> 8 word list \<Rightarrow> 8 word list \<Rightarrow> (int \<times> int) set
    \<Rightarrow> (int \<times> int) set \<Rightarrow> 8 word list \<Rightarrow> bool" where
  "okPixels w h orig pat R K px =
     (length px = length orig \<and> K \<subseteq> R
      \<and> (\<forall>x y. inb w h x y \<longrightarrow>
            rgbaAt px (posOf w x y) = rgbaAt orig (posOf w x y)
            \<or> ((x, y) \<in> R \<and> rgbaAt px (posOf w x y) = rgbaAt pat (posOf w x y)))
      \<and> (\<forall>x y. (x, y) \<in> K \<longrightarrow> rgbaAt px (posOf w x y) = rgbaAt pat (posOf w x y)))"

definition okLine :: "(int \<times> int) set \<Rightarrow> ScanLine \<Rightarrow> bool" where
  "okLine R sl =
     ((direction sl = 1 \<or> direction sl = - 1) \<and> leftX sl \<le> rightX sl
      \<and> (\<forall>x. leftX sl \<le> x \<and> x \<le> rightX sl \<longrightarrow> (x, lineY sl) \<in> R))"

definition pending :: "(int \<times> int) set \<Rightarrow> int \<Rightarrow> int \<Rightarrow> int \<Rightarrow> ScanLine list \<times> bool \<Rightarrow> bool" where
  "pending R newY dir X s =
     (case s of (scanlines, inRange) \<Rightarrow>
        if inRange
        then (\<exists>l r rest. scanlines = \<lparr>lineY = newY, leftX = l, rightX = r, direction = dir\<rparr> # rest
                \<and> l < X \<and> (\<forall>x. l \<le> x \<and> x < X \<longrightarrow> (x, newY) \<in> R)
                \<and> (\<forall>sl \<in> set rest. okLine R sl))
        else (\<forall>sl \<in> set scanlines. okLine R sl))"

text \<open>
  The canvases a touch stroke adds to the history when each of them is recorded: one for
  every touchmove of a freehand tool, one (the final shape) for a shape tool.
\<close>

definition snapshotsOf :: "pointer \<times> tool \<times> 8 word list list \<Rightarrow> 8 word list list" where
  "snapshotsOf s =
     (case s of (event, selectedTool, pxs) \<Rightarrow>
        if shapeTool selectedTool then (if pxs = [] then [] else [last pxs]) else pxs)"

text \<open>
  A canvas of one pixel, and the component once it has mounted on a white one: the mount
  effect has saved the first snapshot and no pointer is down.
\<close>

definition onePixel :: "8 word list \<Rightarrow> ImageData" where
  "onePixel px = \<lparr>width = 1, height = 1, data = px\<rparr>"

definition mountedWhite :: Drawing where
  "mountedWhite =
     idle \<lparr>canvas = Some (onePixel [255, 255, 255, 255]),
           history = [onePixel [255, 255, 255, 255]], historyIndex = 0\<rparr>"

text \<open>A 1 by 11 canvas, black at both ends and white between, and a grey pattern.\<close>

definition capCanvas :: ImageData where
  "capCanvas =
     \<lparr>width = 1, height = 11,
      data = [0, 0, 0, 255] @ concat (replicate 9 [255, 255, 255, 255]) @ [0, 0, 0, 255]\<rparr>"

definition capPattern :: "8 word list" where
  "capPattern = concat (replicate 11 [128, 128, 128, 255])"

section \<open>Theorems\<close>

subsection \<open>Browser history\<close>

lemma addToHistory_eq:
  "addToHistory now entry saved = Some (stamp now entry # take 99 (loadHistory saved))"
  by (simp add: addToHistory_def saveHistory_def Let_def numeral_eq_Suc)

lemma newestFirst_take: "newestFirst h \<Longrightarrow> newestFirst (take n h)"
  unfolding newestFirst_def by (rule sorted_wrt_take)

text \<open>
  Claim C10. Whatever history list was stored before, \<^verbatim>\<open>addToHistory\<close> stores the new
  entry, stamped with the current time, followed by the first 99 of the previous
  entries in their order; the stored list has at most 100 entries; and when the previous
  list was ordered newest first and the clock has not gone backwards, so is the stored one.
\<close>

theorem addToHistory_bounded_newest_first:
  "\<exists>h. addToHistory now entry saved = Some h
      \<and> h = stamp now entry # take 99 (loadHistory saved)
      \<and> timestamp (hd h) = now
      \<and> length h \<le> 100
      \<and> (newestFirst (loadHistory saved) \<and> (\<forall>e \<in> set (loadHistory saved). timestamp e \<le> now)
           \<longrightarrow> newestFirst h)"
proof -
  let ?h = "stamp now entry # take 99 (loadHistory saved)"
  have "newestFirst ?h"
    if "newestFirst (loadHistory saved)" "\<forall>e \<in> set (loadHistory saved). timestamp e \<le> now"
  proof -
    have "\<forall>e \<in> set (take 99 (loadHistory saved)). timestamp e \<le> now"
      using that(2) by (meson in_set_takeD)
    then show ?thesis
      using newestFirst_take[OF that(1), of 99] by (simp add: newestFirst_def stamp_def)
  qed
  then show ?thesis by (simp add: addToHistory_eq stamp_def)
qed

theorem addToHistory_bounded_newest_first_witness:
  "newestFirst [\<lparr>url = ''http://a'', title = ''A'', favicon = None, year = None, timestamp = 5\<rparr>]
   \<and> (5::int) \<le> 7
   \<and> addToHistory 7 \<lparr>url = ''http://b'', title = ''B'', favicon = None, year = Some ''2002''\<rparr>
        (Some [\<lparr>url = ''http://a'', title = ''A'', favicon = None, year = None, timestamp = 5\<rparr>])
      = Some [\<lparr>url = ''http://b'', title = ''B'', favicon = None, year = Some ''2002'', timestamp = 7\<rparr>,
              \<lparr>url = ''http://a'', title = ''A'', favicon = None, year = None, timestamp = 5\<rparr>]
   \<and> newestFirst
        [\<lparr>url = ''http://b'', title = ''B'', favicon = None, year = Some ''2002'', timestamp = 7\<rparr>,
         \<lparr>url = ''http://a'', title = ''A'', favicon = None, year = None, timestamp = 5\<rparr>]"
  using addToHistory_bounded_newest_first
    [of 7 "\<lparr>url = ''http://b'', title = ''B'', favicon = None, year = Some ''2002''\<rparr>"
        "Some [\<lparr>url = ''http://a'', title = ''A'', favicon = None, year = None, timestamp = 5\<rparr>]"]
  by (simp add: loadHistory_def newestFirst_def stamp_def)

subsection \<open>Paint history: the bound and the cursor\<close>

lemma restore_hist [simp]: "history (restore st) = history st" "historyIndex (restore st) = historyIndex st"
  by (auto simp: restore_def split: option.splits)

lemma undo_inv: "historyInv st \<Longrightarrow> historyInv (undo st)"
  by (auto simp: undo_def historyInv_def)

lemma redo_inv: "historyInv st \<Longrightarrow> historyInv (redo st)"
  by (auto simp: redo_def historyInv_def)

lemma saveToHistory_inv:
  assumes "historyInv st \<or> (history st = [] \<and> historyIndex st = - 1)" "canvas st \<noteq> None"
  shows "\<exists>st'. saveToHistory st = Inr st' \<and> historyInv st' \<and> canvas st' \<noteq> None"
  using assms
  by (auto simp: saveToHistory_def pushSnapshot_def historyInv_def atInt_def at_def slice0_def sliceLast_def Let_def
      split: option.splits)

lemma paint_keeps: "history (paint px st) = history st" "historyIndex (paint px st) = historyIndex st"
  "canvas st \<noteq> None \<Longrightarrow> canvas (paint px st) \<noteq> None"
  by (auto simp: paint_def)

lemma restore_canvas: "canvas st \<noteq> None \<Longrightarrow> canvas (restore st) \<noteq> None"
  by (auto simp: restore_def split: option.splits)

lemma undo_canvas: "canvas st \<noteq> None \<Longrightarrow> canvas (undo st) \<noteq> None"
  by (auto simp: undo_def restore_def split: option.splits)

lemma redo_canvas: "canvas st \<noteq> None \<Longrightarrow> canvas (redo st) \<noteq> None"
  by (auto simp: redo_def restore_def split: option.splits)

lemma paintStep_inv:
  assumes "historyInv st" "canvas st \<noteq> None"
  shows "\<exists>st'. paintStep a st = Inr st' \<and> historyInv st' \<and> canvas st' \<noteq> None"
proof (cases a)
  case (Draw px)
  have "historyInv (paint px st)" using assms by (simp add: historyInv_def paint_keeps)
  then show ?thesis using saveToHistory_inv[of "paint px st"] assms Draw
    by (simp add: paintAndSave_def paint_keeps)
next
  case (PaintOnly px)
  then show ?thesis using assms paint_keeps(3)[of st px]
    by (simp add: historyInv_def paint_keeps(1,2))
next
  case Undo
  then show ?thesis using assms undo_inv[of st] undo_canvas[of st] by simp
next
  case Redo
  then show ?thesis using assms redo_inv[of st] redo_canvas[of st] by simp
qed

lemma runPaint_inv:
  "historyInv st \<Longrightarrow> canvas st \<noteq> None \<Longrightarrow>
   \<exists>st'. runPaint ops st = Inr st' \<and> historyInv st' \<and> canvas st' \<noteq> None"
proof (induction ops arbitrary: st)
  case Nil
  then show ?case by simp
next
  case (Cons a ops)
  from paintStep_inv[OF Cons.prems] obtain st1 where
    s: "paintStep a st = Inr st1" "historyInv st1" "canvas st1 \<noteq> None" by blast
  from Cons.IH[OF s(2,3)] s(1) show ?case by simp
qed


text \<open>
  Claim C3. Once the component is mounted (the mount effect calls \<^verbatim>\<open>saveToHistory\<close> on
  the initial state, whose history is empty and whose cursor is \<open>-1\<close>), every sequence
  of drawing operations, undos and redos runs without error and ends in a state whose
  history holds at most 50 snapshots and whose cursor satisfies
  \<open>0 \<le> index < length\<close>.
\<close>

theorem history_bounded:
  "\<exists>st0 st. saveToHistory (initialPaint (Some cv)) = Inr st0 \<and> runPaint ops st0 = Inr st
      \<and> length (history st) \<le> 50 \<and> 0 \<le> historyIndex st
      \<and> historyIndex st < int (length (history st))"
proof -
  obtain st0 where a: "saveToHistory (initialPaint (Some cv)) = Inr st0" "historyInv st0" "canvas st0 \<noteq> None"
    using saveToHistory_inv[of "initialPaint (Some cv)"] by (auto simp: initialPaint_def)
  from runPaint_inv[OF a(2,3), of ops] a(1) show ?thesis by (auto simp: historyInv_def)
qed

subsection \<open>Paint history: undo restores earlier canvases\<close>

lemma putImageData_same:
  assumes "wf_image img" "wf_image cv" "width img = width cv" "height img = height cv"
  shows "putImageData img cv = img"
proof -
  let ?W = "width cv" and ?H = "height cv"
  have len: "length (data cv) = 4 * (?W * ?H)" "length (data img) = 4 * (?W * ?H)"
    using assms by (simp_all add: wf_image_def)
  have "map (\<lambda>i. let p = i div 4; x = p mod ?W; y = p div ?W
                 in if x < width img \<and> y < height img
                    then data img ! ((y * width img + x) * 4 + i mod 4)
                    else data cv ! i) [0..<length (data cv)] = data img"
  proof (rule nth_equalityI)
    show "length (map (\<lambda>i. let p = i div 4; x = p mod ?W; y = p div ?W
                 in if x < width img \<and> y < height img
                    then data img ! ((y * width img + x) * 4 + i mod 4)
                    else data cv ! i) [0..<length (data cv)]) = length (data img)"
      using len by simp
  next
    fix i assume "i < length (map (\<lambda>i. let p = i div 4; x = p mod ?W; y = p div ?W
                 in if x < width img \<and> y < height img
                    then data img ! ((y * width img + x) * 4 + i mod 4)
                    else data cv ! i) [0..<length (data cv)])"
    then have i: "i < 4 * (?W * ?H)" using len by simp
    then have W: "0 < ?W" by (cases "?W = 0") auto
    have p: "i div 4 < ?W * ?H" using i by auto
    then have y: "i div 4 div ?W < ?H"
      by (simp add: less_mult_imp_div_less mult.commute)
    have x: "i div 4 mod ?W < ?W" using W by simp
    have e: "(i div 4 div ?W * ?W + i div 4 mod ?W) * 4 + i mod 4 = i"
      by simp
    show "map (\<lambda>i. let p = i div 4; x = p mod ?W; y = p div ?W
                 in if x < width img \<and> y < height img
                    then data img ! ((y * width img + x) * 4 + i mod 4)
                    else data cv ! i) [0..<length (data cv)] ! i = data img ! i"
      using i len x y e assms(3,4) by (simp add: Let_def)
  qed
  then show ?thesis using assms(3,4) by (simp add: putImageData_def)
qed

lemma sliceLast_snoc_small: "length xs < 50 \<Longrightarrow> sliceLast (xs @ [x]) 50 = sliceLast xs 50 @ [x]"
  by (simp add: sliceLast_def)

lemma sliceLast_snoc_big:
  assumes "length xs \<ge> 50"
  shows "sliceLast (xs @ [x]) 50 = sliceLast (sliceLast xs 50) 49 @ [x]"
proof -
  have "Suc (length xs - 50) = length xs - 49" using assms by arith
  then show ?thesis using assms by (simp add: sliceLast_def)
qed

lemma sliceLast_length: "length (sliceLast xs n) = min n (length xs)"
  by (simp add: sliceLast_def)

lemma sliceLast_last: "xs \<noteq> [] \<Longrightarrow> 0 < n \<Longrightarrow> last (sliceLast xs n) = last xs"
  by (simp add: sliceLast_def)

lemma tracks_cursor:
  assumes "tracks st full"
  shows "atInt (history st) (historyIndex st) = Some (last full)"
    and "Suc (nat (historyIndex st)) = min 50 (length full)"
proof -
  let ?i = "nat (historyIndex st)"
  have t: "take (Suc ?i) (history st) = sliceLast full 50" and i: "?i < length (history st)"
    and f: "full \<noteq> []" and z: "0 \<le> historyIndex st"
    using assms by (simp_all add: tracks_def)
  have "length (take (Suc ?i) (history st)) = Suc ?i" using i by simp
  then show l: "Suc ?i = min 50 (length full)" using t by (simp add: sliceLast_length)
  have "last (take (Suc ?i) (history st)) = history st ! ?i"
    using i by (simp add: take_Suc_conv_app_nth)
  then have "history st ! ?i = last full" using t f by (simp add: sliceLast_last)
  then show "atInt (history st) (historyIndex st) = Some (last full)"
    using i z by (simp add: atInt_def at_def)
qed

lemma pushSnapshot_tracks:
  assumes "tracks st full" "canvas st' = Some c" "history st' = history st"
    "historyIndex st' = historyIndex st"
  shows "tracks (pushSnapshot c st') (full @ [c])"
proof -
  let ?i = "nat (historyIndex st)"
  have l: "Suc ?i = min 50 (length full)" using tracks_cursor[OF assms(1)] by simp
  have z: "0 \<le> historyIndex st"
    and t: "take (Suc ?i) (history st) = sliceLast full 50"
    using assms(1) by (simp_all add: tracks_def)
  have s: "slice0 (history st') (historyIndex st' + 1) = sliceLast full 50"
    using z t assms(3,4) by (simp add: slice0_def nat_add_distrib)
  show ?thesis
  proof (cases "length full \<ge> 50")
    case True
    then have "historyIndex st = 49" using l z by simp
    then show ?thesis using s True assms(2,4)
      by (simp add: pushSnapshot_def Let_def tracks_def sliceLast_length sliceLast_snoc_big)
  next
    case False
    then have "historyIndex st = int (length full) - 1" "sliceLast full 50 = full"
      using l z by (simp_all add: sliceLast_def)
    then show ?thesis using s False assms(2,4) assms(1)
      by (simp add: pushSnapshot_def Let_def tracks_def sliceLast_snoc_small nat_diff_distrib)
  qed
qed

lemma paintAndSave_tracks:
  assumes "tracks st full" "hasCanvasChanged (last full) ((last full)\<lparr>data := px\<rparr>)"
  shows "paintAndSave px st = Inr (pushSnapshot ((last full)\<lparr>data := px\<rparr>) (paint px st))
     \<and> tracks (pushSnapshot ((last full)\<lparr>data := px\<rparr>) (paint px st))
          (full @ [(last full)\<lparr>data := px\<rparr>])"
proof -
  let ?c = "(last full)\<lparr>data := px\<rparr>" and ?p = "paint px st"
  have h: "history ?p = history st" "historyIndex ?p = historyIndex st"
    by (simp_all add: paint_def)
  have cv: "canvas ?p = Some ?c" using assms(1) by (simp add: tracks_def paint_def)
  have cur: "atInt (history ?p) (historyIndex ?p) = Some (last full)"
    using tracks_cursor(1)[OF assms(1)] h by simp
  have z: "0 \<le> historyIndex ?p" using assms(1) h by (simp add: tracks_def)
  have "saveToHistory ?p = Inr (pushSnapshot ?c ?p)"
    using cv cur z assms(2) by (simp add: saveToHistory_def)
  then show ?thesis using pushSnapshot_tracks[OF assms(1) cv h] by (simp add: paintAndSave_def)
qed

lemma allRecorded_Cons:
  "allRecorded c0 (px # pxs) =
     (hasCanvasChanged c0 (c0\<lparr>data := px\<rparr>) \<and> allRecorded (c0\<lparr>data := px\<rparr>) pxs)"
proof -
  have "list_all (\<lambda>j. hasCanvasChanged (canvasAfter c0 (px # pxs) (Suc j))
                        (canvasAfter c0 (px # pxs) (Suc (Suc j)))) [0..<length pxs]
      = list_all (\<lambda>j. hasCanvasChanged (canvasAfter (c0\<lparr>data := px\<rparr>) pxs j)
                        (canvasAfter (c0\<lparr>data := px\<rparr>) pxs (Suc j))) [0..<length pxs]"
    by (rule list.pred_cong) (auto simp: canvasAfter_def)
  then show ?thesis
    unfolding allRecorded_def
    by (simp add: upt_conv_Cons[of 0] map_Suc_upt[symmetric] list.pred_map comp_def
        canvasAfter_def del: upt_Suc)
qed

lemma paintAndSaves_tracks:
  "tracks st full \<Longrightarrow> allRecorded (last full) pxs \<Longrightarrow>
   \<exists>st'. paintAndSaves pxs st = Inr st'
      \<and> tracks st' (full @ map (\<lambda>p. (last full)\<lparr>data := p\<rparr>) pxs)
      \<and> history st' \<noteq> []"
proof (induction pxs arbitrary: st full)
  case Nil
  then show ?case by (auto simp: tracks_def)
next
  case (Cons px pxs)
  let ?c = "(last full)\<lparr>data := px\<rparr>"
  from Cons.prems(2) have r: "hasCanvasChanged (last full) ?c" "allRecorded ?c pxs"
    by (simp_all add: allRecorded_Cons)
  from paintAndSave_tracks[OF Cons.prems(1) r(1)] obtain st1 where
    s: "paintAndSave px st = Inr st1" "tracks st1 (full @ [?c])" by blast
  from Cons.IH[OF s(2)] r(2) s(1) show ?case by simp
qed

lemma undo_pow:
  assumes "canvas st = Some cv" "sameSize c cv" "int k \<le> historyIndex st"
    "nat (historyIndex st) < length (history st)"
    "atInt (history st) (historyIndex st) = Some cv"
    "\<forall>j \<le> k. sameSize c (history st ! (nat (historyIndex st) - j))"
  shows "history ((undo ^^ k) st) = history st
     \<and> historyIndex ((undo ^^ k) st) = historyIndex st - int k
     \<and> canvas ((undo ^^ k) st) = Some (history st ! (nat (historyIndex st) - k))"
  using assms(3,6)
proof (induction k)
  case 0
  then show ?case using assms(1,3,4,5) by (auto simp: atInt_def at_def split: if_splits)
next
  case (Suc k)
  let ?s = "(undo ^^ k) st"
  let ?i = "nat (historyIndex st)"
  have ih: "history ?s = history st" "historyIndex ?s = historyIndex st - int k"
    "canvas ?s = Some (history st ! (?i - k))"
    using Suc by simp_all
  have lt: "int k < historyIndex st" using Suc.prems(1) by simp
  have a: "atInt (history st) (historyIndex st - int k - 1) = Some (history st ! (?i - Suc k))"
    using lt assms(4) by (auto simp: atInt_def at_def nat_diff_distrib)
  have s1: "sameSize c (history st ! (?i - k))" and s2: "sameSize c (history st ! (?i - Suc k))"
    using Suc.prems(2) by auto
  have "putImageData (history st ! (?i - Suc k)) (history st ! (?i - k)) = history st ! (?i - Suc k)"
    using s1 s2 by (intro putImageData_same) (simp_all add: sameSize_def)
  then have "undo ?s = ?s\<lparr>historyIndex := historyIndex st - int k - 1,
                            canvas := Some (history st ! (?i - Suc k))\<rparr>"
    using ih lt a by (simp add: undo_def restore_def)
  then show ?case using ih by simp
qed

lemma tracks_nth:
  assumes "tracks st full" "int j \<le> historyIndex st"
  shows "history st ! (nat (historyIndex st) - j) = full ! (length full - 1 - j)"
proof -
  let ?i = "nat (historyIndex st)"
  have l: "Suc ?i = min 50 (length full)" using tracks_cursor(2)[OF assms(1)] .
  have t: "take (Suc ?i) (history st) = sliceLast full 50"
    using assms(1) by (simp add: tracks_def)
  have j: "j \<le> ?i" using assms(2) by simp
  have "history st ! (?i - j) = take (Suc ?i) (history st) ! (?i - j)" by simp
  also have "\<dots> = drop (length full - 50) full ! (?i - j)" using t by (simp add: sliceLast_def)
  also have "\<dots> = full ! ((length full - 50) + (?i - j))"
    using l j by (intro nth_drop) simp
  also have "(length full - 50) + (?i - j) = length full - 1 - j" using l j by arith
  finally show ?thesis .
qed

lemma full_nth:
  assumes "full0 \<noteq> []" "last full0 = c0" "j \<le> length pxs"
  shows "(full0 @ map (\<lambda>p. c0\<lparr>data := p\<rparr>) pxs) ! (length (full0 @ map (\<lambda>p. c0\<lparr>data := p\<rparr>) pxs) - 1 - j)
     = canvasAfter c0 pxs (length pxs - j)"
proof (cases "j = length pxs")
  case True
  then have "length (full0 @ map (\<lambda>p. c0\<lparr>data := p\<rparr>) pxs) - 1 - j = length full0 - 1" by simp
  then show ?thesis using assms(1,2) True
    by (simp add: nth_append last_conv_nth canvasAfter_def)
next
  case False
  then have lt: "j < length pxs" using assms(3) by simp
  have "0 < length full0" using assms(1) by simp
  then have e: "length (full0 @ map (\<lambda>p. c0\<lparr>data := p\<rparr>) pxs) - 1 - j = length full0 + (length pxs - 1 - j)"
    using lt by simp
  have e2: "length pxs - 1 - j = length pxs - j - 1" by simp
  show ?thesis unfolding e using lt by (simp add: nth_append canvasAfter_def e2)
qed



lemma tracks_start:
  assumes "historyInv st0" "canvas st0 = Some c0"
    "atInt (history st0) (historyIndex st0) = Some c0"
  shows "tracks st0 (take (Suc (nat (historyIndex st0))) (history st0))"
    and "last (take (Suc (nat (historyIndex st0))) (history st0)) = c0"
    and "take (Suc (nat (historyIndex st0))) (history st0) \<noteq> []"
    and "length (take (Suc (nat (historyIndex st0))) (history st0)) = Suc (nat (historyIndex st0))"
proof -
  let ?ix = "nat (historyIndex st0)"
  let ?pre = "take (Suc ?ix) (history st0)"
  have i0: "0 \<le> historyIndex st0" "?ix < length (history st0)" "length (history st0) \<le> 50"
    using assms(1) by (auto simp: historyInv_def)
  show ne: "?pre \<noteq> []" using i0 by auto
  have "last ?pre = history st0 ! ?ix" using i0 by (simp add: take_Suc_conv_app_nth)
  also have "\<dots> = c0" using assms(3) i0 by (simp add: atInt_def at_def)
  finally show last0: "last ?pre = c0" .
  have "sliceLast ?pre 50 = ?pre" using i0 by (simp add: sliceLast_def)
  then show "tracks st0 ?pre"
    using ne last0 assms(2) i0 by (simp add: tracks_def)
  show "length ?pre = Suc ?ix" using i0 by simp
qed

lemma undo_paintAndSaves:
  assumes inv: "historyInv st0" and cv: "canvas st0 = Some c0"
    and sync: "atInt (history st0) (historyIndex st0) = Some c0"
    and wf: "wf_image c0"
    and len: "list_all (\<lambda>px. length px = length (data c0)) pxs"
    and recd: "allRecorded c0 pxs"
  shows "\<exists>st. paintAndSaves pxs st0 = Inr st
      \<and> historyIndex st = min (historyIndex st0 + int (length pxs)) 49
      \<and> (\<forall>k. k \<le> length pxs \<and> int k \<le> historyIndex st
            \<longrightarrow> canvas ((undo ^^ k) st) = Some (canvasAfter c0 pxs (length pxs - k)))"
proof -
  let ?ix = "nat (historyIndex st0)"
  let ?pre = "take (Suc ?ix) (history st0)"
  let ?full = "?pre @ map (\<lambda>p. c0\<lparr>data := p\<rparr>) pxs"
  note t = tracks_start[OF inv cv sync]
  have ne: "?pre \<noteq> []" and last0: "last ?pre = c0" and t0: "tracks st0 ?pre"
    and lpre: "length ?pre = Suc ?ix"
    using t by blast+
  have i0: "0 \<le> historyIndex st0" using inv by (simp add: historyInv_def)
  from paintAndSaves_tracks[OF t0] recd last0 obtain st where
    st: "paintAndSaves pxs st0 = Inr st" "tracks st ?full" by auto
  have "length ?full = Suc ?ix + length pxs" using lpre by simp
  then have e: "Suc (nat (historyIndex st)) = min 50 (Suc ?ix + length pxs)"
    using tracks_cursor(2)[OF st(2)] by simp
  have z: "0 \<le> historyIndex st" using st(2) by (simp add: tracks_def)
  have ix: "historyIndex st = min (historyIndex st0 + int (length pxs)) 49"
  proof (cases "50 \<le> Suc ?ix + length pxs")
    case True
    then have "nat (historyIndex st) = 49" using e by simp
    then show ?thesis using z i0 True by simp
  next
    case False
    then have "nat (historyIndex st) = ?ix + length pxs" using e by simp
    then show ?thesis using z i0 False by simp
  qed
  have size: "sameSize c0 (canvasAfter c0 pxs m)" if "m \<le> length pxs" for m
    using that wf len by (auto simp: sameSize_def canvasAfter_def wf_image_def list_all_length)
  have nth: "history st ! (nat (historyIndex st) - j) = canvasAfter c0 pxs (length pxs - j)"
    if "j \<le> length pxs" "int j \<le> historyIndex st" for j
    using tracks_nth[OF st(2) that(2)] full_nth[OF ne last0 that(1)] by simp
  have "?full \<noteq> []" using ne by simp
  then have "last ?full = ?full ! (length ?full - 1 - 0)" by (simp add: last_conv_nth)
  also have "\<dots> = canvasAfter c0 pxs (length pxs - 0)"
    by (rule full_nth[OF ne last0]) simp
  finally have lastfull: "last ?full = canvasAfter c0 pxs (length pxs)" by simp
  have top: "canvas st = Some (canvasAfter c0 pxs (length pxs))"
    "atInt (history st) (historyIndex st) = Some (canvasAfter c0 pxs (length pxs))"
    "nat (historyIndex st) < length (history st)"
    using st(2) tracks_cursor(1)[OF st(2)] lastfull
    by (simp_all add: tracks_def)
  have "canvas ((undo ^^ k) st) = Some (canvasAfter c0 pxs (length pxs - k))"
    if k: "k \<le> length pxs" "int k \<le> historyIndex st" for k
  proof -
    have "\<forall>j \<le> k. sameSize c0 (history st ! (nat (historyIndex st) - j))"
      using k nth size by auto
    from undo_pow[OF top(1) size[OF order_refl] k(2) top(3) top(2) this] nth[OF k]
    show ?thesis by simp
  qed
  then show ?thesis using st(1) ix by blast
qed

subsection \<open>Paint history: what a stroke records\<close>

lemma sampleDiffers_same: "\<not> sampleDiffers xs xs i"
proof (induction "length xs - i" arbitrary: i rule: less_induct)
  case less
  show ?case
  proof (cases "i < length xs")
    case True
    then have "length xs - (i + 16) < length xs - i" by simp
    from less[OF this] True show ?thesis
      by (subst sampleDiffers.simps) (simp del: sampleDiffers.simps)
  next
    case False
    then show ?thesis by (subst sampleDiffers.simps) (simp del: sampleDiffers.simps)
  qed
qed

lemma hasCanvasChanged_same: "\<not> hasCanvasChanged c c"
  by (simp add: hasCanvasChanged_def sampleDiffers_same del: sampleDiffers.simps)

lemma saveToHistory_synced:
  assumes "tracks st full"
  shows "saveToHistory st = Inr st"
proof -
  have "canvas st = Some (last full)" "0 \<le> historyIndex st"
    using assms by (simp_all add: tracks_def)
  then show ?thesis using tracks_cursor(1)[OF assms]
    by (simp add: saveToHistory_def hasCanvasChanged_same)
qed

lemma saveToHistory_canvas: "saveToHistory st = Inr st' \<Longrightarrow> canvas st' = canvas st"
  by (auto simp: saveToHistory_def pushSnapshot_def Let_def split: option.splits if_splits)

lemma paint_canvas: "canvas st = Some c \<Longrightarrow> canvas (paint px st) = Some (c\<lparr>data := px\<rparr>)"
  by (simp add: paint_def)

lemma paint_paint: "paint q (paint p st) = paint q st"
  by (cases "canvas st") (simp_all add: paint_def)

lemma paintAndSaves_append:
  "paintAndSaves (xs @ ys) st =
     (case paintAndSaves xs st of Inl e \<Rightarrow> Inl e | Inr st' \<Rightarrow> paintAndSaves ys st')"
  by (induction xs arbitrary: st) (auto split: sum.splits)

lemma canvasAfter_Cons:
  "canvasAfter c (x # xs) (Suc n) = canvasAfter (c\<lparr>data := x\<rparr>) xs n"
  by (simp add: canvasAfter_def)

lemma allRecorded_append:
  "allRecorded c (xs @ ys) =
     (allRecorded c xs \<and> allRecorded (canvasAfter c xs (length xs)) ys)"
proof (induction xs arbitrary: c)
  case Nil
  then show ?case by (simp add: canvasAfter_def allRecorded_def)
next
  case (Cons x xs)
  then show ?case by (simp add: allRecorded_Cons canvasAfter_Cons)
qed

lemma last_tracked:
  assumes "full \<noteq> []"
  shows "last (full @ map (\<lambda>p. (last full)\<lparr>data := p\<rparr>) pxs) = canvasAfter (last full) pxs (length pxs)"
  using assms by (cases pxs rule: rev_cases) (simp_all add: canvasAfter_def)

text \<open>The touchmoves of a freehand tool: a change and a save each.\<close>

lemma draws_freehand_touch:
  "\<not> shapeTool t \<Longrightarrow> isDrawing d \<Longrightarrow> canvas (paintState d) = Some c \<Longrightarrow>
   draws Touch t pxs d =
     (case paintAndSaves pxs (paintState d) of
        Inl e \<Rightarrow> Inl e | Inr st \<Rightarrow> Inr (d\<lparr>paintState := st\<rparr>))"
proof (induction pxs arbitrary: d c)
  case Nil
  then show ?case by simp
next
  case (Cons px pxs)
  show ?case
  proof (cases "saveToHistory (paint px (paintState d))")
    case (Inl e)
    then show ?thesis using Cons.prems by (simp add: draw_def paintAndSave_def)
  next
    case (Inr st)
    let ?d = "d\<lparr>paintState := st\<rparr>"
    have "canvas st = canvas (paint px (paintState d))" using saveToHistory_canvas[OF Inr] .
    then have c: "canvas (paintState ?d) = Some (c\<lparr>data := px\<rparr>)"
      using Cons.prems(3) by (simp add: paint_def)
    have i: "isDrawing ?d" using Cons.prems(2) by simp
    have "draw Touch t px d = Inr ?d" using Cons.prems Inr by (simp add: draw_def)
    then show ?thesis using Cons.IH[OF Cons.prems(1) i c] Inr
      by (simp add: paintAndSave_def split: sum.splits)
  qed
qed

text \<open>The moves of a shape tool: previews, of which the last stays on the canvas.\<close>

lemma draws_shape:
  "shapeTool t \<Longrightarrow> isDrawing d \<Longrightarrow> startPointRef d \<Longrightarrow> lastImageRef d = Some img \<Longrightarrow>
   canvas (paintState d) = Some c \<Longrightarrow>
   draws event t pxs d =
     Inr (d\<lparr>paintState := (if pxs = [] then paintState d else paint (last pxs) (paintState d))\<rparr>)"
proof (induction pxs arbitrary: d c)
  case Nil
  then show ?case by simp
next
  case (Cons px pxs)
  let ?d = "d\<lparr>paintState := paint px (paintState d)\<rparr>"
  have s: "draw event t px d = Inr ?d" using Cons.prems by (simp add: draw_def)
  have c: "canvas (paintState ?d) = Some (c\<lparr>data := px\<rparr>)"
    using Cons.prems(5) by (simp add: paint_def)
  have r: "isDrawing ?d" "startPointRef ?d" "lastImageRef ?d = Some img"
    using Cons.prems(2-4) by simp_all
  show ?case using Cons.IH[OF Cons.prems(1) r c] s by (simp add: paint_paint)
qed

text \<open>The mouse never saves: the strokes drawn with it leave the history as it was.\<close>

lemma stopDrawing_mouse:
  "stopDrawing Mouse t d = Inr (if canvas (paintState d) = None then d
      else d\<lparr>isDrawing := False, startPointRef := False\<rparr>)"
  by (simp add: stopDrawing_def Let_def)

lemma draw_mouse_history:
  "draw Mouse t px d = Inr d' \<Longrightarrow>
   history (paintState d') = history (paintState d)
   \<and> historyIndex (paintState d') = historyIndex (paintState d)"
  by (auto simp: draw_def paint_def split: if_splits)

lemma draws_mouse_history:
  "draws Mouse t pxs d = Inr d' \<Longrightarrow>
   history (paintState d') = history (paintState d)
   \<and> historyIndex (paintState d') = historyIndex (paintState d)"
proof (induction pxs arbitrary: d)
  case Nil
  then show ?case by simp
next
  case (Cons px pxs)
  then show ?case using draw_mouse_history by (fastforce split: sum.splits)
qed

lemma mouse_stroke_not_recorded:
  assumes "stroke Mouse t pxs d = Inr d'"
  shows "history (paintState d') = history (paintState d)"
    and "historyIndex (paintState d') = historyIndex (paintState d)"
proof -
  obtain d1 where d1: "draws Mouse t pxs (startDrawing Mouse t d) = Inr d1"
      "stopDrawing Mouse t d1 = Inr d'"
    using assms by (auto simp: stroke_def split: sum.splits)
  have a: "history (paintState d1) = history (paintState d)"
      "historyIndex (paintState d1) = historyIndex (paintState d)"
    using draws_mouse_history[OF d1(1)]
    by (auto simp: startDrawing_def split: option.splits if_splits)
  have "paintState d' = paintState d1" using d1(2) unfolding stopDrawing_mouse by auto
  then show "history (paintState d') = history (paintState d)"
    and "historyIndex (paintState d') = historyIndex (paintState d)"
    using a by simp_all
qed

text \<open>
  Strokes of either kind run without error and keep the history within its bound and the
  cursor inside it.
\<close>

lemma draw_inv:
  assumes "historyInv (paintState d)" "canvas (paintState d) = Some c"
  shows "\<exists>d' c'. draw event t px d = Inr d' \<and> historyInv (paintState d')
      \<and> canvas (paintState d') = Some c'"
proof -
  have p: "historyInv (paint px (paintState d))" "canvas (paint px (paintState d)) \<noteq> None"
    using assms by (simp_all add: historyInv_def paint_def)
  from saveToHistory_inv[of "paint px (paintState d)"] p obtain st where
    "saveToHistory (paint px (paintState d)) = Inr st" "historyInv st" "canvas st \<noteq> None"
    by blast
  then show ?thesis using assms p by (auto simp: draw_def)
qed

lemma draws_inv:
  "historyInv (paintState d) \<Longrightarrow> canvas (paintState d) = Some c \<Longrightarrow>
   \<exists>d' c'. draws event t pxs d = Inr d' \<and> historyInv (paintState d')
      \<and> canvas (paintState d') = Some c'"
proof (induction pxs arbitrary: d c)
  case Nil
  then show ?case by simp
next
  case (Cons px pxs)
  from draw_inv[OF Cons.prems, of event t px] obtain d1 c1 where
    d1: "draw event t px d = Inr d1" "historyInv (paintState d1)" "canvas (paintState d1) = Some c1"
    by blast
  from Cons.IH[OF d1(2,3)] d1(1) show ?case by simp
qed

lemma stopDrawing_inv:
  assumes "historyInv (paintState d)" "canvas (paintState d) = Some c"
  shows "\<exists>d'. stopDrawing event t d = Inr d' \<and> historyInv (paintState d')
      \<and> canvas (paintState d') = Some c \<and> \<not> isDrawing d'"
proof -
  from saveToHistory_inv[of "paintState d"] assms obtain st where
    st: "saveToHistory (paintState d) = Inr st" "historyInv st"
    by auto
  have "canvas st = Some c" using saveToHistory_canvas[OF st(1)] assms(2) by simp
  then show ?thesis using assms st by (auto simp: stopDrawing_def Let_def)
qed

lemma stroke_inv:
  assumes "historyInv (paintState d)" "canvas (paintState d) = Some c"
  shows "\<exists>d' c'. stroke event t pxs d = Inr d' \<and> historyInv (paintState d')
      \<and> canvas (paintState d') = Some c' \<and> \<not> isDrawing d'"
proof -
  let ?d0 = "startDrawing event t d"
  have s: "historyInv (paintState ?d0)" "canvas (paintState ?d0) = Some c"
    using assms by (simp_all add: startDrawing_def)
  from draws_inv[OF s, of event t pxs] obtain d1 c1 where
    d1: "draws event t pxs ?d0 = Inr d1" "historyInv (paintState d1)" "canvas (paintState d1) = Some c1"
    by blast
  from stopDrawing_inv[OF d1(2,3), of event t] d1(1) show ?thesis by (auto simp: stroke_def)
qed

lemma strokes_inv:
  "historyInv (paintState d) \<Longrightarrow> canvas (paintState d) = Some c \<Longrightarrow>
   \<exists>d' c'. strokes ss d = Inr d' \<and> historyInv (paintState d')
      \<and> canvas (paintState d') = Some c'"
proof (induction ss arbitrary: d c)
  case Nil
  then show ?case by simp
next
  case (Cons s ss)
  obtain ev t pxs where s: "s = (ev, t, pxs)" by (cases s) auto
  from stroke_inv[OF Cons.prems, of ev t pxs] obtain d1 c1 where
    d1: "stroke ev t pxs d = Inr d1" "historyInv (paintState d1)" "canvas (paintState d1) = Some c1"
    by blast
  from Cons.IH[OF d1(2,3)] d1(1) s show ?case by simp
qed

text \<open>A touch stroke on a canvas that shows the snapshot under the cursor.\<close>

lemma touch_stroke_tracks:
  assumes t: "tracks (paintState d) full"
    and r: "allRecorded (last full) (snapshotsOf (Touch, tk, pxs))"
  shows "\<exists>d'. stroke Touch tk pxs d = Inr d'
      \<and> paintAndSaves (snapshotsOf (Touch, tk, pxs)) (paintState d) = Inr (paintState d')
      \<and> tracks (paintState d')
           (full @ map (\<lambda>p. (last full)\<lparr>data := p\<rparr>) (snapshotsOf (Touch, tk, pxs)))"
proof -
  let ?snaps = "snapshotsOf (Touch, tk, pxs)"
  let ?full = "full @ map (\<lambda>p. (last full)\<lparr>data := p\<rparr>) ?snaps"
  have cv: "canvas (paintState d) = Some (last full)" using t by (simp add: tracks_def)
  from paintAndSaves_tracks[OF t r] obtain st where
    st: "paintAndSaves ?snaps (paintState d) = Inr st" "tracks st ?full" by blast
  obtain cs where cst: "canvas st = Some cs" using st(2) by (simp add: tracks_def)
  show ?thesis
  proof (cases "shapeTool tk")
    case False
    let ?d0 = "d\<lparr>isDrawing := True\<rparr>"
    have s0: "startDrawing Touch tk d = ?d0" using cv False by (simp add: startDrawing_def)
    have sn: "?snaps = pxs" using False by (simp add: snapshotsOf_def)
    have "draws Touch tk pxs ?d0 = Inr (?d0\<lparr>paintState := st\<rparr>)"
      using draws_freehand_touch[where t = tk and d = ?d0 and c = "last full" and pxs = pxs]
        False cv st(1) sn by simp
    moreover have "stopDrawing Touch tk (?d0\<lparr>paintState := st\<rparr>)
        = Inr (d\<lparr>paintState := st, isDrawing := False, startPointRef := False\<rparr>)"
      using cst saveToHistory_synced[OF st(2)] False by (simp add: stopDrawing_def Let_def)
    ultimately have "stroke Touch tk pxs d
        = Inr (d\<lparr>paintState := st, isDrawing := False, startPointRef := False\<rparr>)"
      using s0 by (simp add: stroke_def)
    then show ?thesis using st by auto
  next
    case True
    let ?d0 = "d\<lparr>lastImageRef := Some (last full), startPointRef := True, isDrawing := True\<rparr>"
    have s0: "startDrawing Touch tk d = ?d0" using cv True by (simp add: startDrawing_def)
    let ?p = "if pxs = [] then paintState d else paint (last pxs) (paintState d)"
    have dr: "draws Touch tk pxs ?d0 = Inr (?d0\<lparr>paintState := ?p\<rparr>)"
      using draws_shape[where t = tk and d = ?d0 and c = "last full" and img = "last full"
          and pxs = pxs and event = Touch] True cv by simp
    obtain cp where cp: "canvas ?p = Some cp" using cv by (cases "pxs = []") (simp_all add: paint_def)
    have sv: "saveToHistory ?p = Inr st"
    proof (cases "pxs = []")
      case True
      then show ?thesis using st(1) saveToHistory_synced[OF t] \<open>shapeTool tk\<close>
        by (simp add: snapshotsOf_def)
    next
      case False
      then show ?thesis using st(1) \<open>shapeTool tk\<close>
        by (simp add: snapshotsOf_def paintAndSave_def split: sum.splits)
    qed
    have "stopDrawing Touch tk (?d0\<lparr>paintState := ?p\<rparr>)
        = Inr (d\<lparr>lastImageRef := Some (last full), paintState := st,
                 isDrawing := False, startPointRef := False\<rparr>)"
      using cp sv by (simp add: stopDrawing_def Let_def)
    then have "stroke Touch tk pxs d
        = Inr (d\<lparr>lastImageRef := Some (last full), paintState := st,
                 isDrawing := False, startPointRef := False\<rparr>)"
      using s0 dr by (simp add: stroke_def)
    then show ?thesis using st by auto
  qed
qed

lemma touch_strokes_tracks:
  "tracks (paintState d) full \<Longrightarrow> list_all (\<lambda>s. fst s = Touch) ss \<Longrightarrow>
   allRecorded (last full) (concat (map snapshotsOf ss)) \<Longrightarrow>
   \<exists>d'. strokes ss d = Inr d'
      \<and> paintAndSaves (concat (map snapshotsOf ss)) (paintState d) = Inr (paintState d')"
proof (induction ss arbitrary: d full)
  case Nil
  then show ?case by simp
next
  case (Cons s ss)
  obtain ev tk pxs where s: "s = (ev, tk, pxs)" by (cases s) auto
  have ev: "ev = Touch" using Cons.prems(2) s by simp
  let ?snaps = "snapshotsOf (Touch, tk, pxs)"
  let ?full = "full @ map (\<lambda>p. (last full)\<lparr>data := p\<rparr>) ?snaps"
  have ne: "full \<noteq> []" using Cons.prems(1) by (simp add: tracks_def)
  have r: "allRecorded (last full) ?snaps"
    "allRecorded (last ?full) (concat (map snapshotsOf ss))"
    using Cons.prems(3) s ev by (simp_all add: allRecorded_append last_tracked[OF ne])
  from touch_stroke_tracks[OF Cons.prems(1) r(1)] obtain d1 where
    d1: "stroke Touch tk pxs d = Inr d1"
      "paintAndSaves ?snaps (paintState d) = Inr (paintState d1)"
      "tracks (paintState d1) ?full" by blast
  have "list_all (\<lambda>s. fst s = Touch) ss" using Cons.prems(2) by simp
  from Cons.IH[OF d1(3) this r(2)] obtain d' where
    d': "strokes ss d1 = Inr d'"
      "paintAndSaves (concat (map snapshotsOf ss)) (paintState d1) = Inr (paintState d')"
    by blast
  show ?case using d1(1,2) d' s ev by (simp add: paintAndSaves_append)
qed

lemma mountedWhite_mounted:
  "saveToHistory (initialPaint (Some (onePixel [255, 255, 255, 255]))) = Inr (paintState mountedWhite)"
  by (simp add: saveToHistory_def initialPaint_def pushSnapshot_def slice0_def Let_def
      mountedWhite_def idle_def)

text \<open>
  Claim C2, as the code has it. Undo steps back one recorded snapshot, and a stroke is not
  always one snapshot: a touch stroke with a freehand tool is saved after every touchmove,
  one with a shape tool once, at its end. Take touch strokes that start on a canvas showing
  the snapshot under the cursor, every touchmove of a freehand tool and every final shape
  changing a sampled byte, and let \<open>M\<close> be the number of these snapshots. Then the strokes
  run without error, the cursor ends at \<open>min (cursor + M) 49\<close>, and \<open>k\<close> undos (with
  \<open>k \<le> M\<close> and \<open>k\<close> not above the cursor) leave on the canvas exactly the pixels it had
  before the last \<open>k\<close> of the recorded changes; with \<open>k = M\<close> that is the canvas from
  before the strokes.
\<close>

theorem undo_restores_recorded_snapshots:
  assumes inv: "historyInv (paintState d0)" and cv: "canvas (paintState d0) = Some c0"
    and sync: "atInt (history (paintState d0)) (historyIndex (paintState d0)) = Some c0"
    and wf: "wf_image c0"
    and touch: "list_all (\<lambda>s. fst s = Touch) ss"
    and len: "list_all (\<lambda>px. length px = length (data c0)) (concat (map snapshotsOf ss))"
    and recd: "allRecorded c0 (concat (map snapshotsOf ss))"
  shows "\<exists>d. strokes ss d0 = Inr d
      \<and> historyIndex (paintState d)
          = min (historyIndex (paintState d0) + int (length (concat (map snapshotsOf ss)))) 49
      \<and> (\<forall>k. k \<le> length (concat (map snapshotsOf ss)) \<and> int k \<le> historyIndex (paintState d)
            \<longrightarrow> canvas ((undo ^^ k) (paintState d))
                = Some (canvasAfter c0 (concat (map snapshotsOf ss))
                          (length (concat (map snapshotsOf ss)) - k)))"
proof -
  let ?snaps = "concat (map snapshotsOf ss)"
  note t = tracks_start[OF inv cv sync]
  have r: "allRecorded (last (take (Suc (nat (historyIndex (paintState d0)))) (history (paintState d0)))) ?snaps"
    using recd t(2) by simp
  from touch_strokes_tracks[OF t(1) touch r] obtain d where
    d: "strokes ss d0 = Inr d" "paintAndSaves ?snaps (paintState d0) = Inr (paintState d)"
    by blast
  from undo_paintAndSaves[OF inv cv sync wf len recd] obtain st where
    st: "paintAndSaves ?snaps (paintState d0) = Inr st"
      "historyIndex st = min (historyIndex (paintState d0) + int (length ?snaps)) 49"
      "\<forall>k. k \<le> length ?snaps \<and> int k \<le> historyIndex st
          \<longrightarrow> canvas ((undo ^^ k) st) = Some (canvasAfter c0 ?snaps (length ?snaps - k))"
    by blast
  have "st = paintState d" using st(1) d(2) by simp
  then show ?thesis using d(1) st(2,3) by simp
qed

theorem undo_restores_recorded_snapshots_witness:
  "historyInv (paintState mountedWhite)
   \<and> wf_image (onePixel [255, 255, 255, 255])
   \<and> allRecorded (onePixel [255, 255, 255, 255])
        (concat (map snapshotsOf
           [(Touch, Freehand, [[100, 0, 0, 255], [0, 0, 0, 255]]),
            (Touch, Line, [[50, 0, 0, 255], [9, 9, 9, 255]])]))
   \<and> (\<exists>d. strokes [(Touch, Freehand, [[100, 0, 0, 255], [0, 0, 0, 255]]),
                     (Touch, Line, [[50, 0, 0, 255], [9, 9, 9, 255]])] mountedWhite = Inr d
         \<and> historyIndex (paintState d) = 3
         \<and> canvas (undo (paintState d)) = Some (onePixel [0, 0, 0, 255])
         \<and> canvas (undo (undo (paintState d))) = Some (onePixel [100, 0, 0, 255])
         \<and> canvas (undo (undo (undo (paintState d)))) = Some (onePixel [255, 255, 255, 255]))"
proof -
  let ?c0 = "onePixel [255, 255, 255, 255]"
  let ?ss = "[(Touch, Freehand, [[100, 0, 0, 255], [0, 0, 0, 255 :: 8 word]]),
              (Touch, Line, [[50, 0, 0, 255], [9, 9, 9, 255]])]"
  have sn: "concat (map snapshotsOf ?ss) = [[100, 0, 0, 255], [0, 0, 0, 255], [9, 9, 9, 255]]"
    by (simp add: snapshotsOf_def shapeTool_def)
  have h1: "historyInv (paintState mountedWhite)"
    by (simp add: historyInv_def mountedWhite_def idle_def)
  have h2: "canvas (paintState mountedWhite) = Some ?c0" by (simp add: mountedWhite_def idle_def)
  have h3: "atInt (history (paintState mountedWhite)) (historyIndex (paintState mountedWhite)) = Some ?c0"
    by (simp add: atInt_def at_def mountedWhite_def idle_def)
  have h4: "wf_image ?c0" by (simp add: wf_image_def onePixel_def)
  have h5: "list_all (\<lambda>s. fst s = Touch) ?ss" by simp
  have h6: "list_all (\<lambda>px. length px = length (data ?c0)) (concat (map snapshotsOf ?ss))"
    unfolding sn by (simp add: onePixel_def)
  have h7: "allRecorded ?c0 (concat (map snapshotsOf ?ss))"
    unfolding sn
    by (simp add: allRecorded_def canvasAfter_def hasCanvasChanged_def at_def upt_rec onePixel_def)
  from undo_restores_recorded_snapshots[OF h1 h2 h3 h4 h5 h6 h7] obtain d where
    d: "strokes ?ss mountedWhite = Inr d"
      "historyIndex (paintState d)
         = min (historyIndex (paintState mountedWhite) + int (length (concat (map snapshotsOf ?ss)))) 49"
      "\<forall>k. k \<le> length (concat (map snapshotsOf ?ss)) \<and> int k \<le> historyIndex (paintState d)
          \<longrightarrow> canvas ((undo ^^ k) (paintState d))
              = Some (canvasAfter ?c0 (concat (map snapshotsOf ?ss))
                        (length (concat (map snapshotsOf ?ss)) - k))"
    by blast
  have ix: "historyIndex (paintState d) = 3"
    using d(2) unfolding sn by (simp add: mountedWhite_def idle_def)
  have u1: "canvas ((undo ^^ 1) (paintState d)) = Some (onePixel [0, 0, 0, 255])"
    using d(3)[rule_format, of 1] ix unfolding sn by (simp add: canvasAfter_def onePixel_def)
  have u2: "canvas ((undo ^^ 2) (paintState d)) = Some (onePixel [100, 0, 0, 255])"
    using d(3)[rule_format, of 2] ix unfolding sn by (simp add: canvasAfter_def onePixel_def)
  have u3: "canvas ((undo ^^ 3) (paintState d)) = Some ?c0"
    using d(3)[rule_format, of 3] ix unfolding sn by (simp add: canvasAfter_def onePixel_def)
  show ?thesis using h1 h4 h7 d(1) ix u1 u2 u3
    by (simp add: numeral_2_eq_2 numeral_3_eq_3)
qed

text \<open>
  Claim C2 as stated fails. One touch stroke of two touchmoves with a freehand tool is
  recorded as two snapshots, and one undo leaves the canvas half drawn, not as it was
  before the stroke. And when the canvas does not show the snapshot under the cursor (a
  touchmove that changed no sampled byte was not recorded), the undo of the next recorded
  stroke goes back to that snapshot, not to the canvas from before the stroke.
\<close>

theorem touch_stroke_undo_counterexample:
  "stroke Touch Freehand [[100, 0, 0, 255], [0, 0, 0, 255]] mountedWhite
     = Inr (idle \<lparr>canvas = Some (onePixel [0, 0, 0, 255]),
                  history = [onePixel [255, 255, 255, 255], onePixel [100, 0, 0, 255],
                             onePixel [0, 0, 0, 255]],
                  historyIndex = 2\<rparr>)
   \<and> canvas (undo \<lparr>canvas = Some (onePixel [0, 0, 0, 255]),
                    history = [onePixel [255, 255, 255, 255], onePixel [100, 0, 0, 255],
                               onePixel [0, 0, 0, 255]],
                    historyIndex = 2\<rparr>)
       = Some (onePixel [100, 0, 0, 255])
   \<and> onePixel [100, 0, 0, 255] \<noteq> onePixel [255, 255, 255, 255]
   \<and> stroke Touch Freehand [[255, 7, 7, 255]] mountedWhite
     = Inr (idle \<lparr>canvas = Some (onePixel [255, 7, 7, 255]),
                  history = [onePixel [255, 255, 255, 255]], historyIndex = 0\<rparr>)
   \<and> stroke Touch Freehand [[0, 0, 0, 255]]
        (idle \<lparr>canvas = Some (onePixel [255, 7, 7, 255]),
               history = [onePixel [255, 255, 255, 255]], historyIndex = 0\<rparr>)
     = Inr (idle \<lparr>canvas = Some (onePixel [0, 0, 0, 255]),
                  history = [onePixel [255, 255, 255, 255], onePixel [0, 0, 0, 255]],
                  historyIndex = 1\<rparr>)
   \<and> canvas (undo \<lparr>canvas = Some (onePixel [0, 0, 0, 255]),
                    history = [onePixel [255, 255, 255, 255], onePixel [0, 0, 0, 255]],
                    historyIndex = 1\<rparr>)
       = Some (onePixel [255, 255, 255, 255])
   \<and> onePixel [255, 255, 255, 255] \<noteq> onePixel [255, 7, 7, 255]"
  by (simp add: stroke_def startDrawing_def draw_def stopDrawing_def shapeTool_def
      mountedWhite_def idle_def onePixel_def paint_def saveToHistory_def pushSnapshot_def
      slice0_def atInt_def at_def hasCanvasChanged_def undo_def restore_def putImageData_def
      Let_def upt_rec)

subsection \<open>Base64 encoding of recorded audio\<close>

lemma b64value_char: "v < 64 \<Longrightarrow> b64value (b64char v) = Some v"
  by (auto simp: b64value_def b64char_def)

lemma b64char_not_special: "v < 64 \<Longrightarrow> b64char v \<noteq> 61 \<and> \<not> asciiWhitespace (b64char v)"
  by (auto simp: b64char_def asciiWhitespace_def)

lemma sextets_lt: "\<forall>b \<in> set s. b < 256 \<Longrightarrow> \<forall>v \<in> set (sextets s). v < 64"
proof (induction s rule: sextets.induct)
  case (1 a b c r)
  have "a div 4 < 64" "(a mod 4) * 16 + b div 16 < 64" "(b mod 16) * 4 + c div 64 < 64" "c mod 64 < 64"
    using 1(2) by auto
  then show ?case using 1 by auto
next
  case (2 a b)
  have "a div 4 < 64" "(a mod 4) * 16 + b div 16 < 64" "(b mod 16) * 4 < 64"
    using 2 by auto
  then show ?case by auto
next
  case (3 a)
  have "a div 4 < 64" "(a mod 4) * 16 < 64" using 3 by auto
  then show ?case by auto
qed simp

lemma octets_sextets: "\<forall>b \<in> set s. b < 256 \<Longrightarrow> octets (sextets s) = s"
proof (induction s rule: sextets.induct)
  case (1 a b c r)
  have "a div 4 * 4 + ((a mod 4) * 16 + b div 16) div 16 = a"
    "(((a mod 4) * 16 + b div 16) mod 16) * 16 + ((b mod 16) * 4 + c div 64) div 4 = b"
    "(((b mod 16) * 4 + c div 64) mod 4) * 64 + c mod 64 = c"
    using 1(2) by auto
  then show ?case using 1 by simp
next
  case (2 a b)
  have "a div 4 * 4 + ((a mod 4) * 16 + b div 16) div 16 = a"
    "(((a mod 4) * 16 + b div 16) mod 16) * 16 + ((b mod 16) * 4) div 4 = b"
    using 2 by auto
  then show ?case by simp
next
  case (3 a)
  have "a div 4 * 4 + ((a mod 4) * 16) div 16 = a" by auto
  then show ?case by simp
qed simp

lemma mod3_step: "Suc (Suc (Suc n)) mod 3 = n mod 3"
  by presburger

lemma mod4_step: "Suc (Suc (Suc (Suc n))) mod 4 = n mod 4"
  by presburger

lemma sextets_length:
  "length (sextets s) mod 4 = (if length s mod 3 = 0 then 0 else length s mod 3 + 1)"
  by (induction s rule: sextets.induct) (simp_all add: mod3_step mod4_step)

lemma stripPadding_pad:
  assumes "xs = [] \<or> last xs \<noteq> 61" "n \<le> 2" "(length xs + n) mod 4 = 0"
  shows "stripPadding (xs @ replicate n 61) = xs"
proof -
  consider "n = 0" | "n = 1" | "n = 2" using assms(2) by linarith
  then show ?thesis
  proof cases
    case 1
    then show ?thesis using assms(1) by (auto simp: stripPadding_def)
  next
    case 2
    then show ?thesis using assms(1,3) by (auto simp: stripPadding_def butlast_append)
  next
    case 3
    then have "replicate n (61::nat) = [61, 61]" by (simp add: numeral_2_eq_2)
    then show ?thesis using assms(1,3) 3 by (auto simp: stripPadding_def butlast_append)
  qed
qed

lemma charCodesInto_fold:
  "n \<le> length binary \<Longrightarrow> length bytes = length binary \<Longrightarrow>
   fold (\<lambda>i bytes. bytes[i := of_nat (binary ! i)]) [0..<n] bytes
     = map of_nat (take n binary) @ drop n bytes"
proof (induction n)
  case 0
  then show ?case by simp
next
  case (Suc n)
  then have "fold (\<lambda>i bytes. bytes[i := of_nat (binary ! i)]) [0..<Suc n] bytes
      = (map of_nat (take n binary) @ drop n bytes)[n := of_nat (binary ! n)]"
    by simp
  also have "\<dots> = map of_nat (take n binary) @ (drop n bytes)[0 := of_nat (binary ! n)]"
    using Suc.prems by (simp add: list_update_append)
  also have "(drop n bytes)[0 := of_nat (binary ! n)] = of_nat (binary ! n) # drop (Suc n) bytes"
    using Suc.prems by (simp add: Cons_nth_drop_Suc[symmetric])
  finally show ?case using Suc.prems by (simp add: take_Suc_conv_app_nth)
qed

lemma charCodesInto_eq: "charCodesInto binary = map of_nat binary"
  using charCodesInto_fold[of "length binary" binary "replicate (length binary) 0"]
  by (simp add: charCodesInto_def)

lemma sextets_last:
  "\<forall>b \<in> set s. b < 256 \<Longrightarrow>
   map b64char (sextets s) = [] \<or> last (map b64char (sextets s)) \<noteq> 61"
proof -
  assume a: "\<forall>b \<in> set s. b < 256"
  have "\<forall>c \<in> set (map b64char (sextets s)). c \<noteq> 61"
    using sextets_lt[OF a] b64char_not_special by auto
  then show ?thesis by (meson last_in_set)
qed

lemma base64_roundtrip_within_limit:
  assumes "length bytes \<le> maxArgs"
  shows "\<exists>b64. base64FromBlob maxArgs bytes = Inr b64 \<and> bytesFromBase64 b64 = Inr bytes"
proof -
  let ?s = "map unat bytes"
  let ?core = "map b64char (sextets ?s)"
  let ?n = "(3 - length ?s mod 3) mod 3"
  have spread: "fromCharCode maxArgs bytes = Inr ?s"
    using assms by (simp add: fromCharCode_def)
  have small: "\<forall>b \<in> set ?s. b < 256"
    using unsigned_less[where 'b = 8] by fastforce
  then have enc: "btoa ?s = Inr (?core @ replicate ?n 61)"
    by (auto simp: btoa_def list_ex_iff)
  have v: "\<forall>v \<in> set (sextets ?s). v < 64" using sextets_lt[OF small] .
  have nows: "filter (\<lambda>c. \<not> asciiWhitespace c) (?core @ replicate ?n 61) = ?core @ replicate ?n 61"
    using v b64char_not_special by (auto simp: filter_id_conv asciiWhitespace_def)
  have pad: "(length ?core + ?n) mod 4 = 0"
  proof -
    have m: "length ?s mod 3 = 0 \<or> length ?s mod 3 = 1 \<or> length ?s mod 3 = 2" by linarith
    have "(length ?core + ?n) mod 4 = (length (sextets ?s) mod 4 + ?n) mod 4"
      by (simp add: mod_add_left_eq)
    also have "\<dots> = 0" using m unfolding sextets_length by auto
    finally show ?thesis .
  qed
  have strip: "stripPadding (?core @ replicate ?n 61) = ?core"
    by (rule stripPadding_pad[OF sextets_last[OF small] _ pad]) simp
  have len: "length ?core mod 4 \<noteq> 1" using sextets_length[of ?s] by (auto split: if_splits)
  have ok: "\<not> list_ex (\<lambda>c. b64value c = None) ?core"
    using v by (auto simp: list_ex_iff b64value_char)
  have vals: "map (\<lambda>c. the (b64value c)) ?core = sextets ?s"
    using v by (auto simp: b64value_char intro: map_idI)
  have "atob (?core @ replicate ?n 61) = Inr ?s"
    using strip len ok vals nows octets_sextets[OF small] by (simp add: atob_def Let_def)
  moreover have "map of_nat ?s = bytes" by (simp add: comp_def)
  ultimately show ?thesis using enc spread
    by (simp add: base64FromBlob_def bytesFromBase64_def charCodesInto_eq)
qed

text \<open>
  Claim C9. The round trip does not hold for every byte array: a buffer with more bytes
  than the engine takes as arguments of one call makes \<^verbatim>\<open>String.fromCharCode(...bytes)\<close>
  throw a RangeError, so \<^verbatim>\<open>base64FromBlob\<close> rejects and no base64 text is produced to be
  decoded. This holds whatever the engine's limit is; below the limit the round trip
  holds (\<open>base64_roundtrip_within_limit\<close>).
\<close>

theorem base64FromBlob_throws_beyond_argument_limit:
  "base64FromBlob maxArgs (replicate (Suc maxArgs) b) = Inl RangeError"
  by (simp add: base64FromBlob_def fromCharCode_def)

subsection \<open>Soundboard: export and import\<close>

lemma importSlot_slotDoc: "importSlot (slotDoc s) = Inr (stripSlot s)"
  by (cases "audioData s"; cases "emoji s"; cases "title s")
     (simp_all add: importSlot_def slotDoc_def getp_def stringifyProps_def
       stripSlot_def)

lemma mapE_map:
  "(\<And>k x. f k (g x) = Inr (h x)) \<Longrightarrow> length ks = length xs \<Longrightarrow>
   mapE (\<lambda>(k, x). f k x) (zip ks (map g xs)) = Inr (map h xs)"
proof (induction xs arbitrary: ks)
  case Nil
  then show ?case by simp
next
  case (Cons x xs)
  then obtain k ks' where ks: "ks = k # ks'" by (cases ks) auto
  with Cons show ?case by simp
qed

lemma arrayMap_slots: "arrayMap (\<lambda>k. importSlot) (JArr (map slotDoc ss)) = Inr (map stripSlot ss)"
  using mapE_map[of "\<lambda>k. importSlot" slotDoc stripSlot "[0..<length ss]" ss]
  by (simp add: arrayMap_def importSlot_slotDoc)

lemma getp_boardDoc_slots:
  "getp (boardDoc b) ''slots'' = Inr (Some (JArr (map slotDoc (slots b))))"
  by (cases "name b") (simp_all add: getp_def boardDoc_def stringifyProps_def)

lemma importOne_boardDoc:
  "\<exists>b'. importOne i (boardDoc b) = Inr b' \<and> id' b' = i \<and> slots b' = map stripSlot (slots b)"
  by (simp add: importOne_def getp_boardDoc_slots arrayMap_slots)

lemma getp_export_boards:
  "getp (exportBoard st) ''boards'' = Inr (Some (JArr (map boardDoc (boards st))))"
  by (simp add: exportBoard_def getp_def)

lemma mapE_map_ex:
  "(\<And>k x. \<exists>y. f k (g x) = Inr y \<and> P k x y) \<Longrightarrow> length ks = length xs \<Longrightarrow>
   \<exists>ys. mapE (\<lambda>(k, x). f k x) (zip ks (map g xs)) = Inr ys
        \<and> list_all2 (\<lambda>(k, x) y. P k x y) (zip ks xs) ys"
proof (induction xs arbitrary: ks)
  case Nil
  then show ?case by simp
next
  case (Cons x xs)
  then obtain k ks' where ks: "ks = k # ks'" by (cases ks) auto
  from Cons.prems(1)[of k x] obtain y where y: "f k (g x) = Inr y" "P k x y" by blast
  from Cons.IH[of ks'] Cons.prems ks obtain ys where
    ys: "mapE (\<lambda>(k, x). f k x) (zip ks' (map g xs)) = Inr ys"
        "list_all2 (\<lambda>(k, x) y. P k x y) (zip ks' xs) ys" by auto
  show ?case using y ys ks by simp
qed

lemma newBoardsOf_export:
  "\<exists>nb. newBoardsOf ids (exportBoard st) = Inr nb
      \<and> map id' nb = map ids [0..<length (boards st)]
      \<and> map slots nb = map (map stripSlot \<circ> slots) (boards st)"
proof -
  let ?P = "\<lambda>k b b'. id' b' = ids k \<and> slots b' = map stripSlot (slots b)"
  have imp: "importedBoards (exportBoard st) = Inr (JArr (map boardDoc (boards st)))"
    by (simp add: importedBoards_def getp_export_boards truthy_def)
  from mapE_map_ex[of "\<lambda>k. importOne (ids k)" boardDoc ?P "[0..<length (boards st)]" "boards st"]
    importOne_boardDoc
  obtain nb where nb:
    "mapE (\<lambda>(k, x). importOne (ids k) x) (zip [0..<length (boards st)] (map boardDoc (boards st))) = Inr nb"
    "list_all2 (\<lambda>(k, x) y. ?P k x y) (zip [0..<length (boards st)] (boards st)) nb"
    by (metis (no_types, lifting) length_upt diff_zero)
  have len: "length nb = length (boards st)" using nb(2) by (auto dest: list_all2_lengthD)
  have "map id' nb = map ids [0..<length (boards st)]"
    using nb(2) len by (intro nth_equalityI) (auto simp: list_all2_conv_all_nth)
  moreover have "map slots nb = map (map stripSlot \<circ> slots) (boards st)"
    using nb(2) len by (intro nth_equalityI) (auto simp: list_all2_conv_all_nth)
  ultimately show ?thesis using nb(1) imp by (simp add: newBoardsOf_def arrayMap_def)
qed

lemma slotFields_saveBoards:
  "map slotFields (boards (saveBoards nb st)) = map slotFields nb"
proof -
  have "slotFields (board\<lparr>slots := map (\<lambda>(slot, idx). slot\<lparr>waveform := w slot idx\<rparr>)
                              (zip (slots board) [0..<length (slots board)])\<rparr>) = slotFields board"
    for board :: Soundboard and w
    by (auto simp: slotFields_def intro!: nth_equalityI)
  then show ?thesis by (simp add: saveBoards_def Let_def comp_def)
qed

lemma boards_importBoard:
  "newBoardsOf ids d = Inr nb \<Longrightarrow>
   boards (importBoard ids (Parsed d) st) = boards (saveBoards (boards st @ nb) st)"
  by (cases nb) (simp_all add: importBoard_def logError_def Let_def)

lemma length_saveBoards: "length (boards (saveBoards nb st)) = length nb"
  by (simp add: saveBoards_def Let_def)

lemma ids_saveBoards: "map id' (boards (saveBoards nb st)) = map id' nb"
  by (simp add: saveBoards_def Let_def comp_def)

text \<open>
  Claim C4. Exporting the boards of any state and importing the exported document into
  any state appends one new board per exported board; the new boards carry, slot for slot
  and in the same order, the \<^verbatim>\<open>audioData\<close>, \<^verbatim>\<open>emoji\<close> and \<^verbatim>\<open>title\<close> values of the exported
  boards, and their ids are the regenerated ones.
\<close>

theorem export_import_roundtrip:
  "length (boards (importBoard ids (Parsed (exportBoard st)) st'))
      = length (boards st') + length (boards st)
   \<and> map slotFields (drop (length (boards st')) (boards (importBoard ids (Parsed (exportBoard st)) st')))
      = map slotFields (boards st)
   \<and> map id' (drop (length (boards st')) (boards (importBoard ids (Parsed (exportBoard st)) st')))
      = map ids [0..<length (boards st)]"
proof -
  from newBoardsOf_export[of ids st] obtain nb where
    nb: "newBoardsOf ids (exportBoard st) = Inr nb"
        "map id' nb = map ids [0..<length (boards st)]"
        "map slots nb = map (map stripSlot \<circ> slots) (boards st)" by blast
  let ?r = "boards (importBoard ids (Parsed (exportBoard st)) st')"
  have r: "?r = boards (saveBoards (boards st' @ nb) st')"
    by (rule boards_importBoard[OF nb(1)])
  have len: "length nb = length (boards st)" using nb(3) by (metis length_map)
  have "map slotFields nb = map (\<lambda>ss. map (\<lambda>s. (audioData s, emoji s, title s)) ss) (map slots nb)"
    by (simp add: slotFields_def comp_def)
  also have "\<dots> = map slotFields (boards st)"
    unfolding nb(3) by (simp add: slotFields_def comp_def stripSlot_def)
  finally have f: "map slotFields nb = map slotFields (boards st)" .
  have "map slotFields ?r = map slotFields (boards st') @ map slotFields (boards st)"
    unfolding r using f by (simp add: slotFields_saveBoards)
  then have a: "map slotFields (drop (length (boards st')) ?r) = map slotFields (boards st)"
    by (simp add: drop_map[symmetric])
  have "map id' ?r = map id' (boards st') @ map ids [0..<length (boards st)]"
    unfolding r using nb(2) by (simp add: ids_saveBoards)
  then have b: "map id' (drop (length (boards st')) ?r) = map ids [0..<length (boards st)]"
    by (simp add: drop_map[symmetric])
  show ?thesis using a b r len by (simp add: length_saveBoards)
qed

lemma keysOf_slotDoc:
  "keysOf (slotDoc slot) =
     (if audioData slot = None then [] else [''audioData''])
     @ (if emoji slot = None then [] else [''emoji''])
     @ (if title slot = None then [] else [''title''])"
  by (cases "audioData slot"; cases "emoji slot"; cases "title slot")
     (simp_all add: keysOf_def slotDoc_def stringifyProps_def)

lemma getp_slotDoc:
  "getp (slotDoc slot) ''audioData'' = Inr (audioData slot)"
  "getp (slotDoc slot) ''emoji'' = Inr (emoji slot)"
  "getp (slotDoc slot) ''title'' = Inr (title slot)"
  "getp (slotDoc slot) ''waveform'' = Inr None"
  by (cases "audioData slot"; cases "emoji slot"; cases "title slot";
      simp add: getp_def slotDoc_def stringifyProps_def)+

lemma keysOf_boardDoc:
  "keysOf (boardDoc board) =
     [''id''] @ (if name board = None then [] else [''name'']) @ [''slots'']
     @ map fst (extra board)"
  by (cases "name board")
     (simp_all add: keysOf_def boardDoc_def stringifyProps_def)

text \<open>
  Claim C7, as amended. The exported document is an object whose only key is
  \<^verbatim>\<open>boards\<close>, holding one element per board; an element of a board that has a name and no
  further properties has exactly the keys \<^verbatim>\<open>id\<close>, \<^verbatim>\<open>name\<close>, \<^verbatim>\<open>slots\<close>; a slot object has
  no key other than \<^verbatim>\<open>audioData\<close>, \<^verbatim>\<open>emoji\<close>, \<^verbatim>\<open>title\<close> (so no \<^verbatim>\<open>waveform\<close>), and has each
  of the three exactly when the slot's value for it is defined, with that value.
\<close>

theorem export_document_shape:
  "keysOf (exportBoard st) = [''boards'']
   \<and> getp (exportBoard st) ''boards'' = Inr (Some (JArr (map boardDoc (boards st))))
   \<and> (name board \<noteq> None \<and> extra board = []
        \<longrightarrow> keysOf (boardDoc board) = [''id'', ''name'', ''slots''])
   \<and> getp (boardDoc board) ''slots'' = Inr (Some (JArr (map slotDoc (slots board))))
   \<and> keysOf (slotDoc slot) =
        (if audioData slot = None then [] else [''audioData''])
        @ (if emoji slot = None then [] else [''emoji''])
        @ (if title slot = None then [] else [''title''])
   \<and> getp (slotDoc slot) ''audioData'' = Inr (audioData slot)
   \<and> getp (slotDoc slot) ''emoji'' = Inr (emoji slot)
   \<and> getp (slotDoc slot) ''title'' = Inr (title slot)"
  by (simp add: getp_export_boards getp_boardDoc_slots keysOf_slotDoc getp_slotDoc
      keysOf_boardDoc) (simp add: keysOf_def exportBoard_def)

theorem export_document_shape_witness:
  "name defaultBoard \<noteq> None \<and> extra defaultBoard = []
   \<and> keysOf (boardDoc defaultBoard) = [''id'', ''name'', ''slots'']
   \<and> keysOf (slotDoc emptySlot) = [''audioData'']"
  using export_document_shape[of initialApp defaultBoard emptySlot]
  by (simp add: defaultBoard_def emptySlot_def)

text \<open>
  Claim C7 as stated fails: the slots of the default board have no emoji and no title,
  and their objects in the exported document hold \<^verbatim>\<open>audioData\<close> alone.
\<close>

theorem export_slot_fields_counterexample:
  "exportBoard initialApp =
     JObj [(''boards'',
            JArr [JObj [(''id'', JStr ''default''), (''name'', JStr ''New Soundboard''),
                        (''slots'', JArr (replicate 9 (JObj [(''audioData'', JNull)])))]])]
   \<and> keysOf (slotDoc emptySlot) \<noteq> [''audioData'', ''emoji'', ''title'']"
  by (simp add: exportBoard_def initialApp_def defaultBoard_def boardDoc_def slotDoc_def
      emptySlot_def stringifyProps_def keysOf_def)

subsection \<open>Soundboard: a failed import\<close>

lemma find_distinct:
  "distinct (map f xs) \<Longrightarrow> x \<in> set xs \<Longrightarrow> find (\<lambda>b. f b = f x) xs = Some x"
  by (induction xs) force+

lemma orElse_same: "orElse w w = w"
  by (cases w) (simp_all add: orElse_def)

lemma rewave_same:
  "map (\<lambda>(slot, idx).
         slot\<lparr>waveform :=
           orElse (case at ss idx of Some s \<Rightarrow> waveform s | None \<Rightarrow> None) (waveform slot)\<rparr>)
       (zip ss [0..<length ss]) = ss"
  by (rule nth_equalityI) (simp_all add: at_def orElse_same)

lemma saveBoards_same:
  assumes "distinct (map id' (boards st))"
  shows "boards (saveBoards (boards st) st) = boards st"
proof -
  have "(if id' board = activeBoardId st
          then board\<lparr>slots :=
                 map (\<lambda>(slot, idx).
                       slot\<lparr>waveform :=
                         orElse (case at (slots (activeBoard st)) idx of
                                   Some s \<Rightarrow> waveform s | None \<Rightarrow> None)
                                (waveform slot)\<rparr>)
                     (zip (slots board) [0..<length (slots board)])\<rparr>
          else board) = board" if b: "board \<in> set (boards st)" for board
  proof (cases "id' board = activeBoardId st")
    case False
    then show ?thesis by simp
  next
    case True
    have "find (\<lambda>b. id' b = activeBoardId st) (boards st) = Some board"
      using find_distinct[OF assms b] True by simp
    then have "activeBoard st = board" by (simp add: activeBoard_def)
    then show ?thesis by (simp add: rewave_same)
  qed
  then show ?thesis by (simp add: saveBoards_def Let_def map_idI)
qed

lemma persistent_saveBoards: "map persistent (boards (saveBoards nb st)) = map persistent nb"
proof -
  have "persistent (board\<lparr>slots := map (\<lambda>(slot, idx). slot\<lparr>waveform := w slot idx\<rparr>)
                              (zip (slots board) [0..<length (slots board)])\<rparr>) = persistent board"
    for board :: Soundboard and w
    by (auto simp: persistent_def slotFields_def intro!: nth_equalityI)
  then show ?thesis by (simp add: saveBoards_def Let_def comp_def)
qed

lemma saveBoards_other:
  "activeBoardId (saveBoards nb st) = activeBoardId st"
  "console (saveBoards nb st) = console st"
  "uncaught (saveBoards nb st) = uncaught st"
  "playbackStates (saveBoards nb st) = playbackStates st"
  by (simp_all add: saveBoards_def Let_def)

lemma importThrows_examples:
  "importThrows ids Unparsable"
  "importThrows ids (Parsed JNull)"
  "importThrows ids (Parsed (JBool b))"
  "importThrows ids (Parsed (JNum n))"
  "importThrows ids (Parsed (JStr s))"
  "importThrows ids (Parsed (JArr xs))"
  "importThrows ids (Parsed (JObj [(''boards'', JArr [])]))"
  "importThrows ids (Parsed (JObj [(''boards'', JArr [JObj [(''slots'', JArr [JNull])]])]))"
  "map_of ps ''boards'' = None \<Longrightarrow> map_of ps ''slots'' = None
     \<Longrightarrow> importThrows ids (Parsed (JObj ps))"
  by (simp_all add: importThrows_def newBoardsOf_def importedBoards_def getp_def truthy_def
      arrayMap_def importOne_def importSlot_def)

text \<open>
  Claim C8. When the file does not parse, or the conversion of the parsed value throws
  anywhere inside the \<^verbatim>\<open>try\<close> block, \<^verbatim>\<open>importBoard\<close> logs one error to the console, lets no
  exception escape, and leaves the active board id and the boards unchanged (their ids,
  names and slot contents always; the very same list when the board ids are distinct).
\<close>

theorem import_failure_contained:
  assumes "importThrows ids fileRead"
  shows "activeBoardId (importBoard ids fileRead st) = activeBoardId st
     \<and> uncaught (importBoard ids fileRead st) = uncaught st
     \<and> (\<exists>e. console (importBoard ids fileRead st) = console st @ [e])
     \<and> map persistent (boards (importBoard ids fileRead st)) = map persistent (boards st)
     \<and> (distinct (map id' (boards st)) \<longrightarrow> boards (importBoard ids fileRead st) = boards st)"
proof (cases fileRead)
  case NoFile
  then show ?thesis using assms by (simp add: importThrows_def)
next
  case Unparsable
  then show ?thesis by (simp add: importBoard_def logError_def)
next
  case (Parsed d)
  show ?thesis
  proof (cases "newBoardsOf ids d")
    case (Inl e)
    then show ?thesis using Parsed by (simp add: importBoard_def logError_def)
  next
    case (Inr nb)
    then have "nb = []" using assms Parsed by (simp add: importThrows_def)
    then show ?thesis using Parsed Inr
      by (simp add: importBoard_def logError_def Let_def saveBoards_other persistent_saveBoards
          saveBoards_same)
  qed
qed

theorem import_failure_contained_witness:
  "importThrows (\<lambda>k. ''n'') (Parsed (JObj [(''boards'', JArr [])]))
   \<and> importThrows (\<lambda>k. ''n'') (Parsed (JObj [(''foo'', JNum 1)]))
   \<and> importThrows (\<lambda>k. ''n'') Unparsable
   \<and> boards (importBoard (\<lambda>k. ''n'') (Parsed (JObj [(''boards'', JArr [])])) initialApp)
       = boards initialApp
   \<and> activeBoardId (importBoard (\<lambda>k. ''n'') (Parsed (JObj [(''boards'', JArr [])])) initialApp)
       = ''default''
   \<and> console (importBoard (\<lambda>k. ''n'') (Parsed (JObj [(''boards'', JArr [])])) initialApp)
       = [TypeError]"
proof -
  have t: "importThrows (\<lambda>k. ''n'') (Parsed (JObj [(''boards'', JArr [])]))"
    by (simp add: importThrows_def newBoardsOf_def importedBoards_def getp_def truthy_def
        arrayMap_def)
  have t2: "importThrows (\<lambda>k. ''n'') (Parsed (JObj [(''foo'', JNum 1)]))"
    by (simp add: importThrows_def newBoardsOf_def importedBoards_def getp_def truthy_def
        arrayMap_def importOne_def)
  have d: "distinct (map id' (boards initialApp))" by (simp add: initialApp_def)
  have c: "console (importBoard (\<lambda>k. ''n'') (Parsed (JObj [(''boards'', JArr [])])) initialApp)
       = [TypeError]"
    by (simp add: importBoard_def newBoardsOf_def importedBoards_def getp_def truthy_def
        arrayMap_def logError_def saveBoards_other initialApp_def)
  show ?thesis
    using import_failure_contained[OF t, of initialApp] d t t2 c
    by (simp add: importThrows_def) (simp add: initialApp_def)
qed


subsection \<open>Soundboard: clicking a slot\<close>

text \<open>
  Claim C6. Clicking a slot of the active board that has no audio and is not recording
  calls \<^verbatim>\<open>startRecording\<close> for that slot, not playback; once the microphone is granted the
  recording is targeted at that slot.
\<close>

theorem empty_slot_click_starts_recording:
  assumes "at (slots (activeBoard st)) index = Some slot"
    and "\<not> truthy (audioData slot)"
    and "at (playbackStates st) index = Some p"
    and "\<not> isRecording p"
  shows "handleSlotClick index st = Inr (StartRecording index)
     \<and> activeSlotRef (startRecording True index st) = Some index
     \<and> at (playbackStates (startRecording True index st)) index
         = Some \<lparr>isRecording = True, isPlaying = False\<rparr>"
  using assms by (auto simp: handleSlotClick_def startRecording_def at_def split: if_splits)

theorem empty_slot_click_starts_recording_witness:
  "at (slots (activeBoard initialApp)) 3 = Some emptySlot
   \<and> \<not> truthy (audioData emptySlot)
   \<and> at (playbackStates initialApp) 3 = Some \<lparr>isRecording = False, isPlaying = False\<rparr>
   \<and> handleSlotClick 3 initialApp = Inr (StartRecording 3)
   \<and> activeSlotRef (startRecording True 3 initialApp) = Some 3"
proof -
  have a: "at (slots (activeBoard initialApp)) 3 = Some emptySlot"
    by (simp add: activeBoard_def initialApp_def defaultBoard_def at_def numeral_eq_Suc)
  have b: "\<not> truthy (audioData emptySlot)" by (simp add: truthy_def emptySlot_def)
  have c: "at (playbackStates initialApp) 3 = Some \<lparr>isRecording = False, isPlaying = False\<rparr>"
    by (simp add: initialApp_def at_def numeral_eq_Suc)
  have d: "\<not> isRecording \<lparr>isRecording = False, isPlaying = False\<rparr>" by simp
  show ?thesis using empty_slot_click_starts_recording[OF a b c d] a b c by simp
qed

subsection \<open>Soundboard: the board list\<close>

lemma deleteCurrentBoard_single:
  "length (boards st) \<le> 1 \<Longrightarrow> deleteCurrentBoard st = st"
  by (simp add: deleteCurrentBoard_def)

lemma boards_saveBoards_empty: "(boards (saveBoards nb st) = []) = (nb = [])"
  by (simp add: saveBoards_def Let_def)

lemma deleteCurrentBoard_distinct:
  assumes "distinct (map id' (boards st))" "boards st \<noteq> []"
  shows "boards (deleteCurrentBoard st) \<noteq> [] \<and> uncaught (deleteCurrentBoard st) = uncaught st"
proof (cases "length (boards st) \<le> 1")
  case True
  then show ?thesis using assms by (simp add: deleteCurrentBoard_def)
next
  case False
  then obtain a b r where bs: "boards st = a # b # r"
    by (cases "boards st"; cases "tl (boards st)") auto
  then have "id' a \<noteq> id' b" using assms(1) by auto
  then have "filter (\<lambda>x. id' x \<noteq> activeBoardId st) (boards st) \<noteq> []"
    using bs by (auto simp: filter_empty_conv)
  then show ?thesis using False
    by (auto simp: deleteCurrentBoard_def Let_def boards_saveBoards_empty saveBoards_other
        split: list.splits)
qed

lemma addNewBoard_nonempty: "boards (addNewBoard now st) \<noteq> []"
  by (simp add: addNewBoard_def Let_def boards_saveBoards_empty)

lemma importBoard_nonempty: "boards st \<noteq> [] \<Longrightarrow> boards (importBoard ids fileRead st) \<noteq> []"
  by (auto simp: importBoard_def logError_def Let_def boards_saveBoards_empty
      split: file_read.splits sum.splits list.splits)

text \<open>
  Claim C5 fails on the code. Two boards added within the same millisecond share their id;
  deleting the current board then removes both, and the board list is left empty (the
  handler throws afterwards).
\<close>

theorem delete_with_shared_id_empties_board_list:
  "boards (deleteCurrentBoard (deleteCurrentBoard (setActiveBoardId ''default''
      (addNewBoard ''1700000000000'' (addNewBoard ''1700000000000'' initialApp))))) = []
   \<and> uncaught (deleteCurrentBoard (deleteCurrentBoard (setActiveBoardId ''default''
      (addNewBoard ''1700000000000'' (addNewBoard ''1700000000000'' initialApp))))) = [TypeError]"
  by (simp add: deleteCurrentBoard_def setActiveBoardId_def addNewBoard_def initialApp_def
      saveBoards_def defaultBoard_def Let_def throw_def)

subsection \<open>Bucket fill\<close>

lemma region4_props:
  "(x, y) \<in> region4 w h orig sx sy \<Longrightarrow>
   inb w h x y \<and> rgbaAt orig (posOf w x y) = rgbaAt orig (posOf w sx sy)"
  by (induction rule: region4.induct) auto

lemma matchesStart_eq: "matchesStart px start pos = (rgbaAt px pos = start)"
  by (cases start) (auto simp: matchesStart_def rgbaAt_def)

lemma inb_index:
  assumes "inb w h x y"
  shows "0 \<le> y * w + x" "y * w + x < w * h"
proof -
  have a: "0 \<le> x" "x < w" "0 \<le> y" "y < h" using assms by (simp_all add: inb_def)
  then have "0 \<le> y * w" by simp
  then show "0 \<le> y * w + x" using a by simp
  have "y + 1 \<le> h" using a by simp
  then have "(y + 1) * w \<le> h * w" using a by (intro mult_right_mono) simp_all
  then show "y * w + x < w * h" using a by (simp add: algebra_simps)
qed

lemma index_inj:
  assumes "inb w h x y" "inb w h x' y'" "y * w + x = y' * w + x'"
  shows "x = x' \<and> y = y'"
proof -
  have a: "0 \<le> x" "x < w" "0 \<le> x'" "x' < w" using assms by (simp_all add: inb_def)
  have "(y * w + x) div w = y" "(y' * w + x') div w = y'" using a by simp_all
  then have "y = y'" using assms(3) by simp
  then show ?thesis using assms(3) by simp
qed

lemma atInt_store:
  "atInt (store a i v) j =
     (if j = i \<and> 0 \<le> i \<and> i < int (length a)
      then Some (case v of Some b \<Rightarrow> b | None \<Rightarrow> 0) else atInt a j)"
  by (auto simp: store_def atInt_def at_def nth_list_update)

lemma length_store [simp]: "length (store a i v) = length a"
  by (simp add: store_def)

lemma length_setPixel [simp]: "length (fst (setPixel pat pos (a, n))) = length a"
  by (simp add: setPixel_def)

lemma rgbaAt_setPixel:
  assumes "length pat = length a" "0 \<le> i" "4 * i + 3 < int (length a)" "0 \<le> j"
  shows "rgbaAt (fst (setPixel pat (i * 4) (a, n))) (j * 4)
     = (if j = i then rgbaAt pat (i * 4) else rgbaAt a (j * 4))"
proof -
  have r: "atInt pat (i * 4 + k) = Some (pat ! nat (i * 4 + k))" if "0 \<le> k" "k \<le> 3" for k
    using that assms by (simp add: atInt_def at_def)
  show ?thesis
    using assms r[of 0] r[of 1] r[of 2] r[of 3]
    by (auto simp: rgbaAt_def setPixel_def atInt_store)
qed

lemma okPixels_setPixel:
  assumes c: "fillCtx w h orig pat" and ok: "okPixels w h orig pat R K px" and r: "(x, y) \<in> R"
    and sub: "R \<subseteq> {(x, y). inb w h x y}"
  shows "okPixels w h orig pat R (insert (x, y) K) (fst (setPixel pat ((y * w + x) * 4) (px, n)))"
proof -
  let ?px = "fst (setPixel pat ((y * w + x) * 4) (px, n))"
  have ib: "inb w h x y" using r sub by auto
  have len: "length px = length orig" "length pat = length px" "int (length px) = 4 * (w * h)"
    using c ok by (simp_all add: fillCtx_def okPixels_def)
  have K: "K \<subseteq> R" using ok by (simp add: okPixels_def)
  have i: "0 \<le> y * w + x" "4 * (y * w + x) + 3 < int (length px)"
    using inb_index[OF ib] len by simp_all
  have e: "rgbaAt ?px (posOf w x' y')
         = (if x' = x \<and> y' = y then rgbaAt pat (posOf w x y) else rgbaAt px (posOf w x' y'))"
    if ib': "inb w h x' y'" for x' y'
  proof -
    have j: "0 \<le> y' * w + x'" using inb_index[OF ib'] by simp
    have "rgbaAt ?px ((y' * w + x') * 4)
         = (if y' * w + x' = y * w + x then rgbaAt pat ((y * w + x) * 4)
            else rgbaAt px ((y' * w + x') * 4))"
      by (rule rgbaAt_setPixel[OF len(2) i j])
    moreover have "(y' * w + x' = y * w + x) = (x' = x \<and> y' = y)"
      using index_inj[OF ib' ib] by auto
    ultimately show ?thesis by (simp add: posOf_def)
  qed
  have a: "rgbaAt ?px (posOf w x' y') = rgbaAt orig (posOf w x' y')
        \<or> ((x', y') \<in> R \<and> rgbaAt ?px (posOf w x' y') = rgbaAt pat (posOf w x' y'))"
    if ib': "inb w h x' y'" for x' y'
  proof (cases "x' = x \<and> y' = y")
    case True
    then show ?thesis using e[OF ib'] r by simp
  next
    case False
    then show ?thesis using e[OF ib'] ok ib' unfolding okPixels_def by auto
  qed
  have b: "rgbaAt ?px (posOf w x' y') = rgbaAt pat (posOf w x' y')"
    if k: "(x', y') \<in> insert (x, y) K" for x' y'
  proof -
    have "(x', y') \<in> R" using k K r by auto
    then have ib': "inb w h x' y'" using sub by auto
    show ?thesis
    proof (cases "x' = x \<and> y' = y")
      case True
      then show ?thesis using e[OF ib'] by simp
    next
      case False
      then have "(x', y') \<in> K" using k by auto
      then show ?thesis using e[OF ib'] False ok unfolding okPixels_def by auto
    qed
  qed
  show ?thesis unfolding okPixels_def using len K r a b by simp
qed

lemma okPixels_mono:
  "okPixels w h orig pat R K px \<Longrightarrow> K' \<subseteq> K \<Longrightarrow> okPixels w h orig pat R K' px"
  unfolding okPixels_def by blast

lemma matches_in_region:
  assumes ok: "okPixels w h orig pat (region4 w h orig sx sy) K px"
    and m: "matchesStart px (rgbaAt orig (posOf w sx sy)) ((y' * w + x') * 4)"
    and ib: "inb w h x' y'" and nb: "(x, y) \<in> region4 w h orig sx sy"
      "\<bar>x - x'\<bar> + \<bar>y - y'\<bar> = 1"
  shows "(x', y') \<in> region4 w h orig sx sy"
proof -
  have px: "rgbaAt px (posOf w x' y') = rgbaAt orig (posOf w sx sy)"
    using m by (simp add: matchesStart_eq posOf_def)
  have "rgbaAt px (posOf w x' y') = rgbaAt orig (posOf w x' y')
      \<or> (x', y') \<in> region4 w h orig sx sy"
    using ok ib unfolding okPixels_def by blast
  then have "rgbaAt orig (posOf w x' y') = rgbaAt orig (posOf w sx sy)"
    using px region4_props[of x' y' w h orig sx sy] by metis
  then show ?thesis using region4.step[OF nb(1) ib nb(2)] by simp
qed

lemma extendLeft_region:
  assumes "okPixels w h orig pat (region4 w h orig sx sy) K px"
    and "start = rgbaAt orig (posOf w sx sy)"
    and "(x0, y) \<in> region4 w h orig sx sy"
  shows "extendLeft w px start y x0 \<le> x0
     \<and> (\<forall>x. extendLeft w px start y x0 \<le> x \<and> x \<le> x0
            \<longrightarrow> (x, y) \<in> region4 w h orig sx sy)"
  using assms
proof (induction w px start y x0 rule: extendLeft.induct)
  case (1 w px start y x1)
  show ?case
  proof (cases "x1 > 0 \<and> matchesStart px start ((y * w + (x1 - 1)) * 4)")
    case True
    have ib: "inb w h x1 y" using 1(4) region4_props[of x1 y w h orig sx sy] by simp
    then have ib': "inb w h (x1 - 1) y" using True by (simp add: inb_def)
    have m: "matchesStart px (rgbaAt orig (posOf w sx sy)) ((y * w + (x1 - 1)) * 4)"
      using True 1(3) by simp
    have r: "(x1 - 1, y) \<in> region4 w h orig sx sy"
      by (rule matches_in_region[OF 1(2) m ib' 1(4)]) simp
    have e: "extendLeft w px start y x1 = extendLeft w px start y (x1 - 1)"
      using True by (subst extendLeft.simps) simp
    have ih: "extendLeft w px start y (x1 - 1) \<le> x1 - 1"
      "\<And>x. extendLeft w px start y (x1 - 1) \<le> x \<Longrightarrow> x \<le> x1 - 1
          \<Longrightarrow> (x, y) \<in> region4 w h orig sx sy"
      using 1(1)[OF True 1(2) 1(3) r] by auto
    have "(x, y) \<in> region4 w h orig sx sy"
      if "extendLeft w px start y (x1 - 1) \<le> x" "x \<le> x1" for x
    proof (cases "x = x1")
      case True
      then show ?thesis using 1(4) by simp
    next
      case False
      then show ?thesis using ih(2)[of x] that by simp
    qed
    then show ?thesis using ih(1) e by simp
  next
    case False
    then have "extendLeft w px start y x1 = x1" by (subst extendLeft.simps) auto
    then show ?thesis using 1(4) by (auto simp: order_class.order_eq_iff[symmetric])
  qed
qed

lemma extendRight_region:
  assumes "okPixels w h orig pat (region4 w h orig sx sy) K px"
    and "start = rgbaAt orig (posOf w sx sy)"
    and "(x0, y) \<in> region4 w h orig sx sy"
  shows "x0 \<le> extendRight w px start y x0
     \<and> (\<forall>x. x0 \<le> x \<and> x \<le> extendRight w px start y x0
            \<longrightarrow> (x, y) \<in> region4 w h orig sx sy)"
  using assms
proof (induction w px start y x0 rule: extendRight.induct)
  case (1 w px start y x2)
  show ?case
  proof (cases "x2 < w - 1 \<and> matchesStart px start ((y * w + (x2 + 1)) * 4)")
    case True
    have ib: "inb w h x2 y" using 1(4) region4_props[of x2 y w h orig sx sy] by simp
    then have ib': "inb w h (x2 + 1) y" using True by (simp add: inb_def)
    have m: "matchesStart px (rgbaAt orig (posOf w sx sy)) ((y * w + (x2 + 1)) * 4)"
      using True 1(3) by simp
    have r: "(x2 + 1, y) \<in> region4 w h orig sx sy"
      by (rule matches_in_region[OF 1(2) m ib' 1(4)]) simp
    have e: "extendRight w px start y x2 = extendRight w px start y (x2 + 1)"
      using True by (subst extendRight.simps) simp
    have ih: "x2 + 1 \<le> extendRight w px start y (x2 + 1)"
      "\<And>x. x2 + 1 \<le> x \<Longrightarrow> x \<le> extendRight w px start y (x2 + 1)
          \<Longrightarrow> (x, y) \<in> region4 w h orig sx sy"
      using 1(1)[OF True 1(2) 1(3) r] by auto
    have "(x, y) \<in> region4 w h orig sx sy"
      if "x2 \<le> x" "x \<le> extendRight w px start y (x2 + 1)" for x
    proof (cases "x = x2")
      case True
      then show ?thesis using 1(4) by simp
    next
      case False
      then show ?thesis using ih(2)[of x] that by simp
    qed
    then show ?thesis using ih(1) e by simp
  next
    case False
    then have "extendRight w px start y x2 = x2" by (subst extendRight.simps) auto
    then show ?thesis using 1(4) by (auto simp: order_class.order_eq_iff[symmetric])
  qed
qed

lemma region4_inb: "region4 w h orig sx sy \<subseteq> {(x, y). inb w h x y}"
  using region4_props by auto

lemma fillSpan_ok:
  assumes "fillCtx w h orig pat"
    and "okPixels w h orig pat (region4 w h orig sx sy) K (fst s)"
    and "\<forall>x'. x \<le> x' \<and> x' \<le> x2 \<longrightarrow> (x', y) \<in> region4 w h orig sx sy"
  shows "okPixels w h orig pat (region4 w h orig sx sy) K (fst (fillSpan w pat y x x2 s))"
  using assms
proof (induction w pat y x x2 s rule: fillSpan.induct)
  case (1 w pat y x x2 s)
  show ?case
  proof (cases "x \<le> x2")
    case True
    obtain px n where s: "s = (px, n)" by (cases s)
    have r: "(x, y) \<in> region4 w h orig sx sy" using 1(4) True by simp
    have ok': "okPixels w h orig pat (region4 w h orig sx sy) K
                 (fst (setPixel pat ((y * w + x) * 4) s))"
      unfolding s using okPixels_mono[OF okPixels_setPixel[OF 1(2) _ r region4_inb], of K px K n]
        1(3) s by auto
    have "\<forall>x'. x + 1 \<le> x' \<and> x' \<le> x2 \<longrightarrow> (x', y) \<in> region4 w h orig sx sy"
      using 1(4) by simp
    from 1(1)[OF True 1(2) ok' this] True show ?thesis
      by (subst fillSpan.simps) simp
  next
    case False
    then show ?thesis using 1(3) by (subst fillSpan.simps) simp
  qed
qed

lemma scanRow_pending:
  assumes "okPixels w h orig pat (region4 w h orig sx sy) K px"
    and "start = rgbaAt orig (posOf w sx sy)"
    and "dir = 1 \<or> dir = - 1"
    and "0 \<le> newY" "newY < h"
    and "\<forall>x'. x \<le> x' \<and> x' \<le> x2 \<longrightarrow> (x', newY - dir) \<in> region4 w h orig sx sy"
    and "pending (region4 w h orig sx sy) newY dir x s"
    and "x \<le> x2 + 1"
  shows "pending (region4 w h orig sx sy) newY dir (x2 + 1) (scanRow w px start newY dir x x2 s)"
  using assms
proof (induction w px start newY dir x x2 s rule: scanRow.induct)
  case (1 w px start newY dir x x2 s)
  let ?R = "region4 w h orig sx sy"
  show ?case
  proof (cases "x \<le> x2")
    case False
    then have "x = x2 + 1" using 1(9) by simp
    then show ?thesis using False 1(8) by (subst scanRow.simps) simp
  next
    case True
    obtain scanlines inRange where s: "s = (scanlines, inRange)" by (cases s)
    let ?m = "matchesStart px start ((newY * w + x) * 4)"
    let ?s' = "if \<not> inRange \<and> ?m
               then (\<lparr>lineY = newY, leftX = x, rightX = x, direction = dir\<rparr> # scanlines, True)
               else if inRange \<and> \<not> ?m then (setTopRightX (x - 1) scanlines, False)
               else (scanlines, inRange)"
    have below: "(x, newY - dir) \<in> ?R" using 1(7) True by simp
    then have "inb w h x (newY - dir)" using region4_props by blast
    then have ib: "inb w h x newY" using 1(5,6) by (simp add: inb_def)
    have adj: "\<bar>x - x\<bar> + \<bar>(newY - dir) - newY\<bar> = 1" using 1(4) by auto
    have here: "(x, newY) \<in> ?R" if "?m"
      using matches_in_region[OF 1(2) _ ib below adj] that 1(3) by simp
    have p': "pending ?R newY dir (x + 1) ?s'"
    proof (cases inRange)
      case False
      then have all: "\<forall>sl \<in> set scanlines. okLine ?R sl" using 1(8) s by (simp add: pending_def)
      show ?thesis
      proof (cases ?m)
        case True
        then show ?thesis using False all here by (auto simp: pending_def)
      next
        case False
        then show ?thesis using \<open>\<not> inRange\<close> all by (simp add: pending_def)
      qed
    next
      case True
      then obtain l r rest where
        t: "scanlines = \<lparr>lineY = newY, leftX = l, rightX = r, direction = dir\<rparr> # rest"
           "l < x" "\<forall>x'. l \<le> x' \<and> x' < x \<longrightarrow> (x', newY) \<in> ?R"
           "\<forall>sl \<in> set rest. okLine ?R sl"
        using 1(8) s by (auto simp: pending_def)
      show ?thesis
      proof (cases ?m)
        case True
        have "\<forall>x'. l \<le> x' \<and> x' < x + 1 \<longrightarrow> (x', newY) \<in> ?R"
        proof (intro allI impI)
          fix x' assume a: "l \<le> x' \<and> x' < x + 1"
          show "(x', newY) \<in> ?R"
          proof (cases "x' = x")
            case True
            then show ?thesis using here \<open>?m\<close> by simp
          next
            case False
            then show ?thesis using t(3) a by simp
          qed
        qed
        then show ?thesis using True \<open>inRange\<close> t by (simp add: pending_def)
      next
        case False
        have "okLine ?R \<lparr>lineY = newY, leftX = l, rightX = x - 1, direction = dir\<rparr>"
          using t(2,3) 1(4) by (simp add: okLine_def)
        then show ?thesis using False \<open>inRange\<close> t
          by (simp add: pending_def setTopRightX_def)
      qed
    qed
    have rest: "\<forall>x'. x + 1 \<le> x' \<and> x' \<le> x2 \<longrightarrow> (x', newY - dir) \<in> ?R"
      using 1(7) by simp
    have "scanRow w px start newY dir x x2 s = scanRow w px start newY dir (x + 1) x2 ?s'"
      using True s by (subst scanRow.simps) (simp add: Let_def)
    moreover have "pending ?R newY dir (x2 + 1) (scanRow w px start newY dir (x + 1) x2 ?s')"
      using True by (intro 1(1)[OF True s[symmetric] refl 1(2) 1(3) 1(4) 1(5) 1(6) rest p']) simp
    ultimately show ?thesis by simp
  qed
qed

lemma findSpans_ok:
  assumes ok: "okPixels w h orig pat (region4 w h orig sx sy) K px"
    and st: "start = rgbaAt orig (posOf w sx sy)"
    and dir: "dir = 1 \<or> dir = - 1"
    and ny: "0 \<le> y + dir" "y + dir < h"
    and span: "\<forall>x'. x1 \<le> x' \<and> x' \<le> x2 \<longrightarrow> (x', y) \<in> region4 w h orig sx sy"
    and le: "x1 \<le> x2"
    and rest: "\<forall>sl \<in> set rest. okLine (region4 w h orig sx sy) sl"
  shows "\<forall>sl \<in> set (findSpans w px start (y + dir) dir x1 x2 rest).
           okLine (region4 w h orig sx sy) sl"
proof -
  let ?R = "region4 w h orig sx sy"
  have p0: "pending ?R (y + dir) dir x1 (rest, False)" using rest by (simp add: pending_def)
  have span': "\<forall>x'. x1 \<le> x' \<and> x' \<le> x2 \<longrightarrow> (x', y + dir - dir) \<in> ?R" using span by simp
  have p: "pending ?R (y + dir) dir (x2 + 1) (scanRow w px start (y + dir) dir x1 x2 (rest, False))"
    using le by (intro scanRow_pending[OF ok st dir ny span' p0]) simp
  obtain sc inR where r: "scanRow w px start (y + dir) dir x1 x2 (rest, False) = (sc, inR)"
    by (cases "scanRow w px start (y + dir) dir x1 x2 (rest, False)")
  show ?thesis
  proof (cases inR)
    case False
    then show ?thesis using p r by (simp add: pending_def findSpans_def)
  next
    case True
    then obtain l r' tl where
      t: "sc = \<lparr>lineY = y + dir, leftX = l, rightX = r', direction = dir\<rparr> # tl"
         "l < x2 + 1" "\<forall>x. l \<le> x \<and> x < x2 + 1 \<longrightarrow> (x, y + dir) \<in> ?R"
         "\<forall>sl \<in> set tl. okLine ?R sl"
      using p r by (auto simp: pending_def)
    have "okLine ?R \<lparr>lineY = y + dir, leftX = l, rightX = x2, direction = dir\<rparr>"
      using t(2,3) dir by (simp add: okLine_def)
    then show ?thesis using True r t by (simp add: findSpans_def setTopRightX_def)
  qed
qed

lemma fillLoop_ok:
  assumes "fillCtx w h orig pat"
    and "start = rgbaAt orig (posOf w sx sy)"
    and "okPixels w h orig pat (region4 w h orig sx sy) K (fst s)"
    and "\<forall>sl \<in> set (snd (snd s)). okLine (region4 w h orig sx sy) sl"
  shows "okPixels w h orig pat (region4 w h orig sx sy) K (fillLoop w h pat start maxPixels s)"
  using assms
proof (induction w h pat start maxPixels s rule: fillLoop.induct)
  case (1 w h pat start maxPixels pixels filledPixels)
  then show ?case by (simp add: fillLoop.simps)
next
  case (2 w h pat start maxPixels pixels filledPixels sl rest)
  let ?R = "region4 w h orig sx sy"
  have okp: "okPixels w h orig pat ?R K pixels" using 2(5) by simp
  have oksl: "okLine ?R sl" and okrest: "\<forall>sl \<in> set rest. okLine ?R sl" using 2(6) by simp_all
  show ?case
  proof (cases "filledPixels < maxPixels")
    case False
    then show ?thesis using okp by (simp add: fillLoop.simps)
  next
    case True
    note lt = True
    show ?thesis
    proof (cases "lineY sl + direction sl < 0 \<or> lineY sl + direction sl \<ge> h")
      case True
      have "okPixels w h orig pat ?R K (fillLoop w h pat start maxPixels (pixels, filledPixels, rest))"
        using lt True okp okrest by (intro 2(1)[OF _ True 2(3) 2(4)]) simp_all
      then show ?thesis using lt True by (simp add: fillLoop.simps)
    next
      case False
      let ?y = "lineY sl"
      let ?x1 = "extendLeft w pixels start ?y (leftX sl)"
      let ?x2 = "extendRight w pixels start ?y (rightX sl)"
      let ?fs = "fillSpan w pat ?y ?x1 ?x2 (pixels, filledPixels)"
      have l: "(leftX sl, ?y) \<in> ?R" and r: "(rightX sl, ?y) \<in> ?R"
        and mid: "\<And>x. leftX sl \<le> x \<Longrightarrow> x \<le> rightX sl \<Longrightarrow> (x, ?y) \<in> ?R"
        and lr: "leftX sl \<le> rightX sl"
        using oksl by (simp_all add: okLine_def)
      have el: "?x1 \<le> leftX sl" "\<And>x. ?x1 \<le> x \<Longrightarrow> x \<le> leftX sl \<Longrightarrow> (x, ?y) \<in> ?R"
        using extendLeft_region[OF okp 2(4) l] by auto
      have er: "rightX sl \<le> ?x2" "\<And>x. rightX sl \<le> x \<Longrightarrow> x \<le> ?x2 \<Longrightarrow> (x, ?y) \<in> ?R"
        using extendRight_region[OF okp 2(4) r] by auto
      have span: "\<forall>x'. ?x1 \<le> x' \<and> x' \<le> ?x2 \<longrightarrow> (x', ?y) \<in> ?R"
      proof (intro allI impI)
        fix x' assume a: "?x1 \<le> x' \<and> x' \<le> ?x2"
        consider "x' \<le> leftX sl" | "leftX sl \<le> x' \<and> x' \<le> rightX sl" | "rightX sl \<le> x'"
          by linarith
        then show "(x', ?y) \<in> ?R" using a el(2) er(2) mid by cases auto
      qed
      have le: "?x1 \<le> ?x2" using el(1) er(1) lr by simp
      have ok1: "okPixels w h orig pat ?R K (fst ?fs)"
        using fillSpan_ok[OF 2(3) _ span, of K "(pixels, filledPixels)"] okp by simp
      have dir: "direction sl = 1 \<or> direction sl = - 1" using oksl by (simp add: okLine_def)
      have ny: "0 \<le> ?y + direction sl" "?y + direction sl < h" using False by simp_all
      have ok2: "\<forall>s \<in> set (findSpans w (fst ?fs) start (?y + direction sl) (direction sl)
                              ?x1 ?x2 rest). okLine ?R s"
        by (rule findSpans_ok[OF ok1 2(4) dir ny span le okrest])
      have "okPixels w h orig pat ?R K
              (fillLoop w h pat start maxPixels
                 (fst ?fs, snd ?fs,
                  findSpans w (fst ?fs) start (?y + direction sl) (direction sl) ?x1 ?x2 rest))"
        using lt False ok1 ok2 by (intro 2(2)[OF _ False 2(3) 2(4)]) simp_all
      then show ?thesis using lt False by (simp add: fillLoop.simps)
    qed
  qed
qed

lemma fillSpan_sets:
  assumes "fillCtx w h orig pat"
    and "okPixels w h orig pat (region4 w h orig sx sy) K (fst s)"
    and "\<forall>x'. x \<le> x' \<and> x' \<le> x2 \<longrightarrow> (x', y) \<in> region4 w h orig sx sy"
    and "x \<le> x0" "x0 \<le> x2"
  shows "okPixels w h orig pat (region4 w h orig sx sy) (insert (x0, y) K)
           (fst (fillSpan w pat y x x2 s))"
  using assms
proof (induction w pat y x x2 s rule: fillSpan.induct)
  case (1 w pat y x x2 s)
  let ?R = "region4 w h orig sx sy"
  have le: "x \<le> x2" using 1(5,6) by simp
  obtain px n where s: "s = (px, n)" by (cases s)
  have r: "(x, y) \<in> ?R" using 1(4) le by simp
  have ok': "okPixels w h orig pat ?R (insert (x, y) K) (fst (setPixel pat ((y * w + x) * 4) s))"
    unfolding s using okPixels_setPixel[OF 1(2) _ r region4_inb, of K px n] 1(3) s by simp
  have rest: "\<forall>x'. x + 1 \<le> x' \<and> x' \<le> x2 \<longrightarrow> (x', y) \<in> ?R" using 1(4) by simp
  have e: "fillSpan w pat y x x2 s = fillSpan w pat y (x + 1) x2 (setPixel pat ((y * w + x) * 4) s)"
    using le by (subst fillSpan.simps) simp
  show ?case
  proof (cases "x = x0")
    case True
    have "okPixels w h orig pat ?R (insert (x0, y) K)
            (fst (fillSpan w pat y (x + 1) x2 (setPixel pat ((y * w + x) * 4) s)))"
      using fillSpan_ok[OF 1(2) _ rest, of "insert (x0, y) K" "setPixel pat ((y * w + x) * 4) s"]
        ok' True by simp
    then show ?thesis using e by simp
  next
    case False
    then have lt: "x + 1 \<le> x0" using 1(5) by simp
    have ok'': "okPixels w h orig pat ?R K (fst (setPixel pat ((y * w + x) * 4) s))"
      using okPixels_mono[OF ok'] by auto
    show ?thesis using 1(1)[OF le 1(2) ok'' rest lt 1(6)] e by simp
  qed
qed

lemma maxPixelsOf_pos: "1 \<le> w \<Longrightarrow> 2 \<le> h \<Longrightarrow> 0 < maxPixelsOf w h"
proof -
  assume a: "1 \<le> w" "2 \<le> h"
  then have "1 * 2 \<le> w * h" by (intro mult_mono) simp_all
  then have "5 \<le> w * h * 4" by simp
  then have "1 \<le> (w * h * 4) div 5" by linarith
  then show ?thesis by (simp add: maxPixelsOf_def)
qed

lemma fillLoop_line_fills:
  assumes ctx: "fillCtx w h orig pat"
    and st: "start = rgbaAt orig (posOf w sx sy)"
    and okp: "okPixels w h orig pat (region4 w h orig sx sy) K pixels"
    and oksl: "okLine (region4 w h orig sx sy) sl"
    and okrest: "\<forall>s \<in> set rest. okLine (region4 w h orig sx sy) s"
    and at: "leftX sl \<le> x0" "x0 \<le> rightX sl"
    and ny: "0 \<le> lineY sl + direction sl" "lineY sl + direction sl < h"
    and lt: "filledPixels < maxPixels"
  shows "okPixels w h orig pat (region4 w h orig sx sy) (insert (x0, lineY sl) K)
           (fillLoop w h pat start maxPixels (pixels, filledPixels, sl # rest))"
proof -
  let ?R = "region4 w h orig sx sy"
  let ?y = "lineY sl"
  let ?x1 = "extendLeft w pixels start ?y (leftX sl)"
  let ?x2 = "extendRight w pixels start ?y (rightX sl)"
  let ?fs = "fillSpan w pat ?y ?x1 ?x2 (pixels, filledPixels)"
  have l: "(leftX sl, ?y) \<in> ?R" and r: "(rightX sl, ?y) \<in> ?R"
    and mid: "\<And>x. leftX sl \<le> x \<Longrightarrow> x \<le> rightX sl \<Longrightarrow> (x, ?y) \<in> ?R"
    and lr: "leftX sl \<le> rightX sl"
    using oksl by (simp_all add: okLine_def)
  have el: "?x1 \<le> leftX sl" "\<And>x. ?x1 \<le> x \<Longrightarrow> x \<le> leftX sl \<Longrightarrow> (x, ?y) \<in> ?R"
    using extendLeft_region[OF okp st l] by auto
  have er: "rightX sl \<le> ?x2" "\<And>x. rightX sl \<le> x \<Longrightarrow> x \<le> ?x2 \<Longrightarrow> (x, ?y) \<in> ?R"
    using extendRight_region[OF okp st r] by auto
  have span: "\<forall>x'. ?x1 \<le> x' \<and> x' \<le> ?x2 \<longrightarrow> (x', ?y) \<in> ?R"
  proof (intro allI impI)
    fix x' assume a: "?x1 \<le> x' \<and> x' \<le> ?x2"
    consider "x' \<le> leftX sl" | "leftX sl \<le> x' \<and> x' \<le> rightX sl" | "rightX sl \<le> x'"
      by linarith
    then show "(x', ?y) \<in> ?R" using a el(2) er(2) mid by cases auto
  qed
  have le: "?x1 \<le> ?x2" using el(1) er(1) lr by simp
  have in1: "?x1 \<le> x0" "x0 \<le> ?x2" using el(1) er(1) at by simp_all
  have ok1: "okPixels w h orig pat ?R (insert (x0, ?y) K) (fst ?fs)"
    using fillSpan_sets[OF ctx _ span in1, of K "(pixels, filledPixels)"] okp by simp
  have dir: "direction sl = 1 \<or> direction sl = - 1" using oksl by (simp add: okLine_def)
  have ok2: "\<forall>s \<in> set (findSpans w (fst ?fs) start (?y + direction sl) (direction sl)
                          ?x1 ?x2 rest). okLine ?R s"
    by (rule findSpans_ok[OF ok1 st dir ny span le okrest])
  have "okPixels w h orig pat ?R (insert (x0, ?y) K)
          (fillLoop w h pat start maxPixels
             (fst ?fs, snd ?fs,
              findSpans w (fst ?fs) start (?y + direction sl) (direction sl) ?x1 ?x2 rest))"
    using ok1 ok2 by (intro fillLoop_ok[OF ctx st]) simp_all
  then show ?thesis using lt ny by (simp add: fillLoop.simps)
qed

text \<open>
  Claim C1, as amended. For a well-formed canvas, pattern data of the same size and a
  start pixel inside the canvas, \<^verbatim>\<open>floodFill\<close> keeps the size of the image; every pixel
  either keeps its colour or lies in the 4-connected region of the start colour and has
  received the pattern's pixel at its position, so every pixel outside that region is
  unchanged; and on a canvas of at least two rows the start pixel itself carries the
  pattern's pixel afterwards.
\<close>

theorem floodFill_within_region:
  assumes wf: "wf_image img" and len: "length pat = length (data img)"
    and st: "inb (int (width img)) (int (height img)) sx sy"
  shows "width (floodFill img (Some pat) sx sy) = width img
     \<and> height (floodFill img (Some pat) sx sy) = height img
     \<and> length (data (floodFill img (Some pat) sx sy)) = length (data img)
     \<and> (\<forall>x y. inb (int (width img)) (int (height img)) x y \<longrightarrow>
           rgbaAt (data (floodFill img (Some pat) sx sy)) (posOf (int (width img)) x y)
             = rgbaAt (data img) (posOf (int (width img)) x y)
           \<or> ((x, y) \<in> region4 (int (width img)) (int (height img)) (data img) sx sy
               \<and> rgbaAt (data (floodFill img (Some pat) sx sy)) (posOf (int (width img)) x y)
                   = rgbaAt pat (posOf (int (width img)) x y)))
     \<and> (2 \<le> height img \<longrightarrow>
           rgbaAt (data (floodFill img (Some pat) sx sy)) (posOf (int (width img)) sx sy)
             = rgbaAt pat (posOf (int (width img)) sx sy))"
proof -
  let ?w = "int (width img)" and ?h = "int (height img)"
  let ?R = "region4 ?w ?h (data img) sx sy"
  let ?start = "rgbaAt (data img) ((sy * ?w + sx) * 4)"
  let ?down = "\<lparr>lineY = sy, leftX = sx, rightX = sx, direction = - 1\<rparr>"
  let ?up = "\<lparr>lineY = sy, leftX = sx, rightX = sx, direction = 1\<rparr>"
  let ?res = "fillLoop ?w ?h pat ?start (maxPixelsOf ?w ?h) (data img, 0, [?down, ?up])"
  have ctx: "fillCtx ?w ?h (data img) pat"
    using wf len by (simp add: fillCtx_def wf_image_def)
  have sdef: "?start = rgbaAt (data img) (posOf ?w sx sy)" by (simp add: posOf_def)
  have ok0: "okPixels ?w ?h (data img) pat ?R {} (data img)" by (simp add: okPixels_def)
  have s: "(sx, sy) \<in> ?R" using st by (rule region4.start)
  have lines: "okLine ?R ?down" "okLine ?R ?up"
    using s by (auto simp: okLine_def order_class.order_eq_iff[symmetric])
  have ok: "okPixels ?w ?h (data img) pat ?R {} ?res"
    using ok0 lines by (intro fillLoop_ok[OF ctx sdef]) simp_all
  have live: "okPixels ?w ?h (data img) pat ?R {(sx, sy)} ?res" if h2: "2 \<le> height img"
  proof -
    have b: "0 \<le> sx" "sx < ?w" "0 \<le> sy" "sy < ?h" using st by (simp_all add: inb_def)
    have mp: "0 < maxPixelsOf ?w ?h" using b h2 by (intro maxPixelsOf_pos) simp_all
    show ?thesis
    proof (cases "0 \<le> sy - 1")
      case True
      show ?thesis
        using fillLoop_line_fills[OF ctx sdef ok0 lines(1), of "[?up]" sx 0 "maxPixelsOf ?w ?h"]
          lines(2) True b mp by simp
    next
      case False
      then have sy0: "sy = 0" using b by simp
      have e: "?res = fillLoop ?w ?h pat ?start (maxPixelsOf ?w ?h) (data img, 0, [?up])"
        using sy0 mp by (subst fillLoop.simps) simp
      show ?thesis unfolding e
        using fillLoop_line_fills[OF ctx sdef ok0 lines(2), of "[]" sx 0 "maxPixelsOf ?w ?h"]
          sy0 h2 mp by simp
    qed
  qed
  show ?thesis
  proof (cases "rgbaAt (data img) ((sy * ?w + sx) * 4) = rgbaAt pat ((sy * ?w + sx) * 4)")
    case True
    then show ?thesis by (simp add: floodFill_def Let_def posOf_def)
  next
    case False
    then have d: "data (floodFill img (Some pat) sx sy) = ?res"
      by (simp add: floodFill_def Let_def)
    have dims: "width (floodFill img (Some pat) sx sy) = width img"
      "height (floodFill img (Some pat) sx sy) = height img"
      using False by (simp_all add: floodFill_def Let_def)
    have "2 \<le> height img \<longrightarrow> rgbaAt ?res (posOf ?w sx sy) = rgbaAt pat (posOf ?w sx sy)"
      using live unfolding okPixels_def by blast
    then show ?thesis using ok dims unfolding d okPixels_def by simp
  qed
qed

lemma capCanvas_rows:
  "rgbaAt (data capCanvas) (posOf 1 0 1) = (Some 255, Some 255, Some 255, Some 255)"
  "rgbaAt (data capCanvas) (posOf 1 0 2) = (Some 255, Some 255, Some 255, Some 255)"
  "rgbaAt (data capCanvas) (posOf 1 0 3) = (Some 255, Some 255, Some 255, Some 255)"
  "rgbaAt (data capCanvas) (posOf 1 0 4) = (Some 255, Some 255, Some 255, Some 255)"
  "rgbaAt (data capCanvas) (posOf 1 0 5) = (Some 255, Some 255, Some 255, Some 255)"
  "rgbaAt (data capCanvas) (posOf 1 0 6) = (Some 255, Some 255, Some 255, Some 255)"
  "rgbaAt (data capCanvas) (posOf 1 0 7) = (Some 255, Some 255, Some 255, Some 255)"
  "rgbaAt (data capCanvas) (posOf 1 0 8) = (Some 255, Some 255, Some 255, Some 255)"
  "rgbaAt (data capCanvas) (posOf 1 0 9) = (Some 255, Some 255, Some 255, Some 255)"
  by code_simp+

lemma capCanvas_white:
  "1 \<le> k \<Longrightarrow> k \<le> 9 \<Longrightarrow>
   rgbaAt (data capCanvas) (posOf 1 0 k) = (Some 255, Some 255, Some 255, Some 255)"
proof -
  assume "1 \<le> k" "k \<le> 9"
  then have "k = 1 \<or> k = 2 \<or> k = 3 \<or> k = 4 \<or> k = 5 \<or> k = 6 \<or> k = 7 \<or> k = 8 \<or> k = 9"
    by presburger
  then show ?thesis by (elim disjE) (simp_all add: capCanvas_rows)
qed

lemma capCanvas_column:
  "k \<le> 8 \<Longrightarrow> (0, 9 - int k) \<in> region4 1 11 (data capCanvas) 0 9"
proof (induction k)
  case 0
  show ?case using region4.start[of 1 11 0 9] by (simp add: inb_def)
next
  case (Suc k)
  then have prev: "(0, 9 - int k) \<in> region4 1 11 (data capCanvas) 0 9" by simp
  have "(0, 9 - int k - 1) \<in> region4 1 11 (data capCanvas) 0 9"
  proof (rule region4.step[OF prev])
    show "inb 1 11 0 (9 - int k - 1)" using Suc.prems by (simp add: inb_def)
    show "\<bar>(0::int) - 0\<bar> + \<bar>9 - int k - (9 - int k - 1)\<bar> = 1" by simp
    show "rgbaAt (data capCanvas) (posOf 1 0 (9 - int k - 1))
        = rgbaAt (data capCanvas) (posOf 1 0 9)"
      using Suc.prems by (simp add: capCanvas_white)
  qed
  then show ?case by (simp add: algebra_simps)
qed

theorem floodFill_within_region_witness:
  "wf_image capCanvas \<and> length capPattern = length (data capCanvas) \<and> inb 1 11 0 9
   \<and> length (data (floodFill capCanvas (Some capPattern) 0 9)) = 44
   \<and> rgbaAt (data (floodFill capCanvas (Some capPattern) 0 9)) (posOf 1 0 9)
       = rgbaAt capPattern (posOf 1 0 9)
   \<and> (rgbaAt (data (floodFill capCanvas (Some capPattern) 0 9)) (posOf 1 0 0)
        = rgbaAt (data capCanvas) (posOf 1 0 0)
      \<or> ((0, 0) \<in> region4 1 11 (data capCanvas) 0 9
          \<and> rgbaAt (data (floodFill capCanvas (Some capPattern) 0 9)) (posOf 1 0 0)
              = rgbaAt capPattern (posOf 1 0 0)))"
proof -
  have a: "wf_image capCanvas" by code_simp
  have b: "length capPattern = length (data capCanvas)" by code_simp
  have w: "int (width capCanvas) = 1" "int (height capCanvas) = 11" by (simp_all add: capCanvas_def)
  have c: "inb (int (width capCanvas)) (int (height capCanvas)) 0 9" by (simp add: w inb_def)
  have d: "inb 1 11 0 0" by (simp add: inb_def)
  have l: "length (data capCanvas) = 44" by code_simp
  have h2: "2 \<le> height capCanvas" by (simp add: capCanvas_def)
  show ?thesis
    using floodFill_within_region[OF a b c] a b c d l h2 unfolding w by auto
qed

text \<open>
  Claim C1 as stated fails: the fill stops once the number of pixel writes reaches four
  fifths of the canvas. On the 1 by 11 canvas the region of the start pixel \<open>(0, 9)\<close> is
  the nine white pixels; pixel \<open>(0, 1)\<close> belongs to it and stays white.
\<close>

theorem floodFill_cap_counterexample:
  "wf_image capCanvas \<and> length capPattern = length (data capCanvas) \<and> inb 1 11 0 9
   \<and> rgbaAt (data capCanvas) (posOf 1 0 9) \<noteq> rgbaAt capPattern (posOf 1 0 9)
   \<and> (0, 1) \<in> region4 1 11 (data capCanvas) 0 9
   \<and> rgbaAt (data (floodFill capCanvas (Some capPattern) 0 9)) (posOf 1 0 1)
       = (Some 255, Some 255, Some 255, Some 255)
   \<and> rgbaAt capPattern (posOf 1 0 1) = (Some 128, Some 128, Some 128, Some 255)"
proof -
  have r: "(0, 1) \<in> region4 1 11 (data capCanvas) 0 9"
    using capCanvas_column[of 8] by simp
  have f: "rgbaAt (data (floodFill capCanvas (Some capPattern) 0 9)) (posOf 1 0 1)
       = (Some 255, Some 255, Some 255, Some 255)"
    by code_simp
  have p: "rgbaAt capPattern (posOf 1 0 1) = (Some 128, Some 128, Some 128, Some 255)"
    "rgbaAt capPattern (posOf 1 0 9) = (Some 128, Some 128, Some 128, Some 255)"
    by code_simp+
  have q: "wf_image capCanvas" "length capPattern = length (data capCanvas)"
    by code_simp+
  show ?thesis using r f p q capCanvas_rows(9) by (simp add: inb_def)
qed

end
